theory Spec2Isabelle
  imports Main "HOL-Library.Code_Target_Nat"
begin

section \<open>Memory, errors and references\<close>

text \<open>
  \<^verbatim>\<open>array_vector.hxx\<close> works on raw storage: a view is a length and a pointer, and the
  owning array adds a capacity and an allocator. Pointers are modelled as natural numbers
  counting element slots, with \<open>0\<close> the null pointer. A slot holds \<open>Some v\<close> while a
  constructed element \<open>v\<close> lives there and \<open>None\<close> otherwise (never handed out, raw,
  destroyed or released). Reading a slot that holds no element is undefined behaviour in the
  source; the model reports it as the fault \<open>InvalidRead\<close>. Writes are not checked.

  \<open>size_type\<close> is \<^verbatim>\<open>unsigned int\<close>: sizes are naturals and every sum, product and decrement
  of the source is taken modulo \<open>2 ^ 32\<close>. \<open>difference_type\<close> is \<^verbatim>\<open>int\<close>: a pointer difference
  stored in it is cut to 32 bits in two's complement, and may come out negative.
\<close>

datatype error = PreconditionViolation string | MemoryExhaustion | InvalidRead

record 'a memory =
  cells :: "nat \<Rightarrow> 'a option"
  brk :: nat
  avail :: nat

text \<open>A fault carries the memory as it was when the exception left the operation.\<close>

type_synonym 'a fault = "error \<times> 'a memory"

definition size_type_modulus :: nat where
  "size_type_modulus = 2 ^ 32"

definition add32 :: "nat \<Rightarrow> nat \<Rightarrow> nat" where
  "add32 a b = (a + b) mod size_type_modulus"

definition sub32 :: "nat \<Rightarrow> nat \<Rightarrow> nat" where
  "sub32 a b = (a + size_type_modulus - b mod size_type_modulus) mod size_type_modulus"

definition mul32 :: "nat \<Rightarrow> nat \<Rightarrow> nat" where
  "mul32 a b = (a * b) mod size_type_modulus"

text \<open>
  \<open>difference_type d\<close> is the value an \<^verbatim>\<open>int\<close> holds after \<open>d\<close> is stored in it;
  \<open>ptr_diff p q\<close> is \<^verbatim>\<open>difference_type pos = p - q\<close>; \<open>ptr_add p d\<close> is the pointer \<^verbatim>\<open>p + d\<close>
  for such an offset (the model has no address below 0); \<open>to_size_type d\<close> is the
  conversion of the \<^verbatim>\<open>int\<close> to \<^verbatim>\<open>unsigned int\<close> that \<^verbatim>\<open>pos + n\<close> performs.
\<close>

definition difference_type :: "int \<Rightarrow> int" where
  "difference_type d = (d + 2 ^ 31) mod 2 ^ 32 - 2 ^ 31"

definition ptr_diff :: "nat \<Rightarrow> nat \<Rightarrow> int" where
  "ptr_diff p q = difference_type (int p - int q)"

definition ptr_add :: "nat \<Rightarrow> int \<Rightarrow> nat" where
  "ptr_add p d = nat (int p + d)"

definition to_size_type :: "int \<Rightarrow> nat" where
  "to_size_type d = nat (d mod 2 ^ 32)"

text \<open>
  A \<^verbatim>\<open>value_type const &\<close> parameter either refers to an object outside the modelled
  storage (then only its value matters) or to a slot of the modelled storage.
\<close>

datatype 'a const_ref = Outside 'a | Slot nat

fun deref :: "'a memory \<Rightarrow> 'a const_ref \<Rightarrow> 'a option" where
  "deref m (Outside v) = Some v"
| "deref m (Slot a) = cells m a"

definition poke :: "nat \<Rightarrow> 'a \<Rightarrow> 'a memory \<Rightarrow> 'a memory" where
  "poke a v m = m\<lparr>cells := (cells m)(a \<mapsto> v)\<rparr>"

subsection \<open>The memory provider and the helpers of other headers\<close>

text \<open>
  Modelled from the spec: the memory provider (\<^verbatim>\<open>Alloc\<close>, by default \<^verbatim>\<open>std::allocator\<close>),
  which is not part of the repository. It "allocates raw blocks" and raises
  \<open>MemoryExhaustion\<close> "when allocation fails". The model hands out fresh blocks upwards from
  \<open>brk\<close> and fails when the request exceeds the \<open>avail\<close> slots it can still supply;
  released storage holds no elements and is never handed out again. \<open>construct\<close> reads
  the value through the reference it is given, \<open>destroy\<close> ends the element's life.
\<close>

definition allocate :: "nat \<Rightarrow> 'a memory \<Rightarrow> 'a fault + (nat \<times> 'a memory)" where
  "allocate n m =
     (if avail m < n then Inl (MemoryExhaustion, m)
      else Inr (brk m, m\<lparr>brk := brk m + n, avail := avail m - n\<rparr>))"

definition alloc_deallocate :: "nat \<Rightarrow> nat \<Rightarrow> 'a memory \<Rightarrow> 'a memory" where
  "alloc_deallocate p n m =
     m\<lparr>cells := (\<lambda>a. if p \<le> a \<and> a < p + n then None else cells m a)\<rparr>"

definition alloc_construct :: "nat \<Rightarrow> 'a const_ref \<Rightarrow> 'a memory \<Rightarrow> 'a fault + 'a memory" where
  "alloc_construct p t m =
     (case deref m t of None \<Rightarrow> Inl (InvalidRead, m) | Some v \<Rightarrow> Inr (poke p v m))"

definition alloc_destroy :: "nat \<Rightarrow> 'a memory \<Rightarrow> 'a memory" where
  "alloc_destroy p m = m\<lparr>cells := (cells m)(p := None)\<rparr>"

text \<open>
  Modelled from the spec: \<^verbatim>\<open>detail::destroy_n\<close> of \<^verbatim>\<open>memory.hxx\<close>, which is not under
  \<^verbatim>\<open>src/\<close>: it "destroys" the \<open>n\<close> elements starting at \<open>p\<close>, after which the slots hold no
  element.
\<close>

primrec destroy_n :: "nat \<Rightarrow> nat \<Rightarrow> 'a memory \<Rightarrow> 'a memory" where
  "destroy_n p 0 m = m"
| "destroy_n p (Suc n) m = destroy_n (Suc p) n (m\<lparr>cells := (cells m)(p := None)\<rparr>)"

text \<open>
  Modelled from the spec: \<^verbatim>\<open>vigra_precondition\<close> of \<^verbatim>\<open>error.hxx\<close>, which is not under
  \<^verbatim>\<open>src/\<close>: a failed check raises \<open>PreconditionViolation\<close> with the given message.
\<close>

definition vigra_precondition :: "bool \<Rightarrow> string \<Rightarrow> 'a memory \<Rightarrow> 'a fault + unit" where
  "vigra_precondition c msg m = (if c then Inr () else Inl (PreconditionViolation msg, m))"

subsection \<open>The standard algorithms the source calls\<close>

text \<open>
  \<^verbatim>\<open>std::copy(first, last, d_first)\<close> assigns front to back, \<^verbatim>\<open>std::copy_backward(first,
  last, d_last)\<close> back to front; \<^verbatim>\<open>std::uninitialized_copy\<close> and \<^verbatim>\<open>std::uninitialized_fill\<close>
  construct front to back. Each loop is a recursion on the number of elements left; a range
  \<open>[first, last)\<close> has \<open>last - first\<close> elements, and the standard requires
  \<open>first \<le> last\<close>.
\<close>

primrec copy_loop :: "nat \<Rightarrow> nat \<Rightarrow> nat \<Rightarrow> 'a memory \<Rightarrow> 'a fault + 'a memory" where
  "copy_loop 0 first d m = Inr m"
| "copy_loop (Suc n) first d m =
     (case cells m first of
        None \<Rightarrow> Inl (InvalidRead, m)
      | Some v \<Rightarrow> copy_loop n (Suc first) (Suc d) (poke d v m))"

primrec copy_backward_loop :: "nat \<Rightarrow> nat \<Rightarrow> nat \<Rightarrow> 'a memory \<Rightarrow> 'a fault + 'a memory" where
  "copy_backward_loop 0 lst d_last m = Inr m"
| "copy_backward_loop (Suc n) lst d_last m =
     (case cells m (lst - 1) of
        None \<Rightarrow> Inl (InvalidRead, m)
      | Some v \<Rightarrow> copy_backward_loop n (lst - 1) (d_last - 1) (poke (d_last - 1) v m))"

primrec fill_loop :: "nat \<Rightarrow> nat \<Rightarrow> 'a const_ref \<Rightarrow> 'a memory \<Rightarrow> 'a fault + 'a memory" where
  "fill_loop 0 first v m = Inr m"
| "fill_loop (Suc n) first v m =
     (case deref m v of
        None \<Rightarrow> Inl (InvalidRead, m)
      | Some x \<Rightarrow> fill_loop n (Suc first) v (poke first x m))"

definition std_copy :: "nat \<Rightarrow> nat \<Rightarrow> nat \<Rightarrow> 'a memory \<Rightarrow> 'a fault + 'a memory" where
  "std_copy first lst d_first m = copy_loop (lst - first) first d_first m"

definition std_copy_backward :: "nat \<Rightarrow> nat \<Rightarrow> nat \<Rightarrow> 'a memory \<Rightarrow> 'a fault + 'a memory" where
  "std_copy_backward first lst d_last m = copy_backward_loop (lst - first) lst d_last m"

definition uninitialized_copy :: "nat \<Rightarrow> nat \<Rightarrow> nat \<Rightarrow> 'a memory \<Rightarrow> 'a fault + 'a memory" where
  "uninitialized_copy first lst d_first m = copy_loop (lst - first) first d_first m"

definition std_fill :: "nat \<Rightarrow> nat \<Rightarrow> 'a const_ref \<Rightarrow> 'a memory \<Rightarrow> 'a fault + 'a memory" where
  "std_fill first lst v m = fill_loop (lst - first) first v m"

definition uninitialized_fill ::
  "nat \<Rightarrow> nat \<Rightarrow> 'a const_ref \<Rightarrow> 'a memory \<Rightarrow> 'a fault + 'a memory" where
  "uninitialized_fill first lst v m = fill_loop (lst - first) first v m"

text \<open>The loop of \<^verbatim>\<open>swapDataImpl\<close>: \<^verbatim>\<open>std::swap(data_[k], rhs.data_[k])\<close> for \<open>k\<close> upwards.\<close>

primrec swap_loop :: "nat \<Rightarrow> nat \<Rightarrow> nat \<Rightarrow> 'a memory \<Rightarrow> 'a fault + 'a memory" where
  "swap_loop 0 a b m = Inr m"
| "swap_loop (Suc n) a b m =
     (case cells m a of
        None \<Rightarrow> Inl (InvalidRead, m)
      | Some x \<Rightarrow>
          (case cells m b of
             None \<Rightarrow> Inl (InvalidRead, m)
           | Some y \<Rightarrow> swap_loop n (Suc a) (Suc b) (poke b x (poke a y m))))"

section \<open>ArrayVectorView and ArrayVector\<close>

record array_vector_view =
  m_size :: nat
  m_data :: nat

record array_vector = array_vector_view +
  m_capacity :: nat

definition minimumCapacity :: nat where
  "minimumCapacity = 2"

definition v_begin :: "'z array_vector_view_scheme \<Rightarrow> nat" where
  "v_begin v = m_data v"

definition v_end :: "'z array_vector_view_scheme \<Rightarrow> nat" where
  "v_end v = m_data v + m_size v"

text \<open>The slots a view covers, front to back.\<close>

definition slots :: "'a memory \<Rightarrow> 'z array_vector_view_scheme \<Rightarrow> 'a option list" where
  "slots m v = map (\<lambda>i. cells m (m_data v + i)) [0..<m_size v]"

definition subarray ::
  "'a memory \<Rightarrow> 'z array_vector_view_scheme \<Rightarrow> nat \<Rightarrow> nat \<Rightarrow> 'a fault + array_vector_view" where
  "subarray m v b e =
     (case vigra_precondition (0 \<le> b \<and> b \<le> e \<and> e \<le> m_size v)
             ''ArrayVectorView::subarray(): Limits out of range.'' m of
        Inl f \<Rightarrow> Inl f
      | Inr _ \<Rightarrow> Inr \<lparr>m_size = e - b, m_data = m_data v + b\<rparr>)"

definition copyImpl ::
  "'a memory \<Rightarrow> 'y array_vector_view_scheme \<Rightarrow> 'z array_vector_view_scheme \<Rightarrow>
   'a fault + 'a memory" where
  "copyImpl m this rhs =
     (case vigra_precondition (m_size this = m_size rhs)
             ''ArrayVectorView::copy(): shape mismatch.'' m of
        Inl f \<Rightarrow> Inl f
      | Inr _ \<Rightarrow>
          if m_data this \<le> m_data rhs
          then std_copy (v_begin rhs) (v_end rhs) (v_begin this) m
          else std_copy_backward (v_begin rhs) (v_end rhs) (v_end this) m)"

definition copy ::
  "'a memory \<Rightarrow> 'y array_vector_view_scheme \<Rightarrow> 'z array_vector_view_scheme \<Rightarrow>
   'a fault + 'a memory" where
  "copy m this rhs = (if m_data this \<noteq> m_data rhs then copyImpl m this rhs else Inr m)"

subsection \<open>Raw storage of ArrayVector\<close>

definition reserve_raw :: "nat \<Rightarrow> 'a memory \<Rightarrow> 'a fault + (nat \<times> 'a memory)" where
  "reserve_raw capacity m = (if capacity \<noteq> 0 then allocate capacity m else Inr (0, m))"

definition deallocate :: "nat \<Rightarrow> nat \<Rightarrow> 'a memory \<Rightarrow> 'a memory" where
  "deallocate dat sz m =
     (if dat \<noteq> 0 then alloc_deallocate dat sz (destroy_n dat sz m) else m)"

subsection \<open>Constructors and destructor\<close>




definition ArrayVector_copy ::
  "array_vector \<Rightarrow> 'a memory \<Rightarrow> 'a fault + ('a memory \<times> array_vector)" where
  "ArrayVector_copy rhs m =
     (case reserve_raw (m_capacity rhs) m of
        Inl f \<Rightarrow> Inl f
      | Inr (d, m1) \<Rightarrow>
          if 0 < m_size rhs
          then (case uninitialized_copy (m_data rhs) (m_data rhs + m_size rhs) d m1 of
                  Inl f \<Rightarrow> Inl f
                | Inr m2 \<Rightarrow>
                    Inr (m2, \<lparr>m_size = m_size rhs, m_data = d, m_capacity = m_capacity rhs\<rparr>))
          else Inr (m1, \<lparr>m_size = m_size rhs, m_data = d, m_capacity = m_capacity rhs\<rparr>))"

definition ArrayVector_view ::
  "'z array_vector_view_scheme \<Rightarrow> 'a memory \<Rightarrow> 'a fault + ('a memory \<times> array_vector)" where
  "ArrayVector_view rhs m =
     (case reserve_raw (m_size rhs) m of
        Inl f \<Rightarrow> Inl f
      | Inr (d, m1) \<Rightarrow>
          if 0 < m_size rhs
          then (case uninitialized_copy (m_data rhs) (m_data rhs + m_size rhs) d m1 of
                  Inl f \<Rightarrow> Inl f
                | Inr m2 \<Rightarrow>
                    Inr (m2, \<lparr>m_size = m_size rhs, m_data = d, m_capacity = m_size rhs\<rparr>))
          else Inr (m1, \<lparr>m_size = m_size rhs, m_data = d, m_capacity = m_size rhs\<rparr>))"

definition destructor :: "array_vector \<Rightarrow> 'a memory \<Rightarrow> 'a memory" where
  "destructor this m = deallocate (m_data this) (m_size this) m"

subsection \<open>swapData\<close>

text \<open>
  The size check of \<^verbatim>\<open>swapDataImpl\<close> is written \<^verbatim>\<open>size () == rhs.size() ()\<close> in the
  source; it is read as the comparison of the two sizes. The temporary \<open>t\<close> is destroyed
  when the block is left, also by an exception.
\<close>

definition swapDataImpl ::
  "'a memory \<Rightarrow> 'y array_vector_view_scheme \<Rightarrow> 'z array_vector_view_scheme \<Rightarrow>
   'a fault + 'a memory" where
  "swapDataImpl m this rhs =
     (case vigra_precondition (m_size this = m_size rhs)
             ''ArrayVectorView::swapData(): size mismatch.'' m of
        Inl f \<Rightarrow> Inl f
      | Inr _ \<Rightarrow>
          if m_data this + m_size this \<le> m_data rhs \<or> m_data rhs + m_size this \<le> m_data this
          then swap_loop (m_size this) (m_data this) (m_data rhs) m
          else
            (case ArrayVector_view this m of
               Inl f \<Rightarrow> Inl f
             | Inr (m1, t) \<Rightarrow>
                 (case copyImpl m1 this rhs of
                    Inl (e, m2) \<Rightarrow> Inl (e, destructor t m2)
                  | Inr m2 \<Rightarrow>
                      (case copyImpl m2 rhs this of
                         Inl (e, m3) \<Rightarrow> Inl (e, destructor t m3)
                       | Inr m3 \<Rightarrow> Inr (destructor t m3)))))"

definition swapData ::
  "'a memory \<Rightarrow> 'y array_vector_view_scheme \<Rightarrow> 'z array_vector_view_scheme \<Rightarrow>
   'a fault + 'a memory" where
  "swapData m this rhs = (if m_data this \<noteq> m_data rhs then swapDataImpl m this rhs else Inr m)"

text \<open>
  The swap of overlapping ranges as the specification words it, for comparison with
  \<open>swapDataImpl\<close>: "materialize a full independent copy of this view, copy rhs into this
  view, then copy the saved independent copy into rhs".
\<close>

definition swap_by_temporary ::
  "'a memory \<Rightarrow> 'y array_vector_view_scheme \<Rightarrow> 'z array_vector_view_scheme \<Rightarrow>
   'a fault + 'a memory" where
  "swap_by_temporary m this rhs =
     (case ArrayVector_view this m of
        Inl f \<Rightarrow> Inl f
      | Inr (m1, t) \<Rightarrow>
          (case copyImpl m1 this rhs of
             Inl (e, m2) \<Rightarrow> Inl (e, destructor t m2)
           | Inr m2 \<Rightarrow>
               (case copyImpl m2 rhs t of
                  Inl (e, m3) \<Rightarrow> Inl (e, destructor t m3)
                | Inr m3 \<Rightarrow> Inr (destructor t m3))))"

subsection \<open>Member functions of ArrayVector\<close>

text \<open>
  A member function works on the memory and on the object itself (\<^verbatim>\<open>*this\<close>: size, data
  pointer and capacity). It returns both, and a fault carries both as they were when the
  exception left the function. Iterators are pointers.
\<close>

type_synonym 'a state = "'a memory \<times> array_vector"

type_synonym 'a afault = "error \<times> 'a state"

definition lift_fault :: "array_vector \<Rightarrow> 'a fault \<Rightarrow> 'a afault" where
  "lift_fault this f = (fst f, (snd f, this))"

definition swap_av :: "array_vector \<Rightarrow> array_vector \<Rightarrow> array_vector \<times> array_vector" where
  "swap_av this rhs =
     (\<lparr>m_size = m_size rhs, m_data = m_data rhs, m_capacity = m_capacity rhs\<rparr>,
      \<lparr>m_size = m_size this, m_data = m_data this, m_capacity = m_capacity this\<rparr>)"

text \<open>
  \<^verbatim>\<open>operator=(this_type const & rhs)\<close>. The flag \<open>same\<close> is the test \<^verbatim>\<open>this == &rhs\<close>.
\<close>

definition assign :: "bool \<Rightarrow> array_vector \<Rightarrow> 'a state \<Rightarrow> 'a afault + 'a state" where
  "assign same rhs s =
     (case s of (m, this) \<Rightarrow>
        if same then Inr (m, this)
        else if m_size this = m_size rhs
        then (case copyImpl m this rhs of
                Inl f \<Rightarrow> Inl (lift_fault this f)
              | Inr m1 \<Rightarrow> Inr (m1, this))
        else (case ArrayVector_copy rhs m of
                Inl f \<Rightarrow> Inl (lift_fault this f)
              | Inr (m1, t) \<Rightarrow>
                  (case swap_av this t of (this1, t1) \<Rightarrow> Inr (destructor t1 m1, this1))))"

definition pop_back :: "'a state \<Rightarrow> 'a state" where
  "pop_back s =
     (case s of (m, this) \<Rightarrow>
        let this1 = this\<lparr>m_size := sub32 (m_size this) 1\<rparr>
        in (alloc_destroy (m_data this1 + m_size this1) m, this1))"

definition reserve :: "nat \<Rightarrow> 'a state \<Rightarrow> 'a afault + 'a state" where
  "reserve new_capacity s =
     (case s of (m, this) \<Rightarrow>
        if new_capacity \<le> m_capacity this then Inr (m, this)
        else
          (case reserve_raw new_capacity m of
             Inl f \<Rightarrow> Inl (lift_fault this f)
           | Inr (new_data, m1) \<Rightarrow>
               (case (if 0 < m_size this
                      then uninitialized_copy (m_data this) (m_data this + m_size this) new_data m1
                      else Inr m1) of
                  Inl f \<Rightarrow> Inl (lift_fault this f)
                | Inr m2 \<Rightarrow>
                    Inr (deallocate (m_data this) (m_size this) m2,
                         this\<lparr>m_data := new_data, m_capacity := new_capacity\<rparr>))))"

text \<open>The overload \<^verbatim>\<open>reserve()\<close> without argument.\<close>

definition reserve_grow :: "'a state \<Rightarrow> 'a afault + 'a state" where
  "reserve_grow s =
     (case s of (m, this) \<Rightarrow>
        if m_capacity this = 0 then reserve minimumCapacity s
        else if m_size this = m_capacity this then reserve (mul32 2 (m_capacity this)) s
        else Inr s)"

definition push_back :: "'a const_ref \<Rightarrow> 'a state \<Rightarrow> 'a afault + 'a state" where
  "push_back t s =
     (case reserve_grow s of
        Inl f \<Rightarrow> Inl f
      | Inr (m1, this1) \<Rightarrow>
          (case alloc_construct (m_data this1 + m_size this1) t m1 of
             Inl f \<Rightarrow> Inl (lift_fault this1 f)
           | Inr m2 \<Rightarrow> Inr (m2, this1\<lparr>m_size := add32 (m_size this1) 1\<rparr>)))"

definition back_av :: "array_vector \<Rightarrow> 'a const_ref" where
  "back_av this = Slot (m_data this + sub32 (m_size this) 1)"

text \<open>\<^verbatim>\<open>insert(iterator p, value_type const & v)\<close>; the result has the returned iterator.\<close>

definition insert_1 ::
  "nat \<Rightarrow> 'a const_ref \<Rightarrow> 'a state \<Rightarrow> 'a afault + ('a state \<times> nat)" where
  "insert_1 p v s =
     (case s of (m, this) \<Rightarrow>
        let pos = ptr_diff p (v_begin this) in
        if p = v_end this
        then (case push_back v s of
                Inl f \<Rightarrow> Inl f
              | Inr (m1, this1) \<Rightarrow> Inr ((m1, this1), ptr_add (v_begin this1) pos))
        else (case push_back (back_av this) s of
                Inl f \<Rightarrow> Inl f
              | Inr (m1, this1) \<Rightarrow>
                  let p1 = ptr_add (v_begin this1) pos in
                  (case std_copy_backward p1 (v_end this1 - 2) (v_end this1 - 1) m1 of
                     Inl f \<Rightarrow> Inl (lift_fault this1 f)
                   | Inr m2 \<Rightarrow>
                       (case deref m2 v of
                          None \<Rightarrow> Inl (InvalidRead, (m2, this1))
                        | Some x \<Rightarrow> Inr ((poke p1 x m2, this1), p1)))))"

text \<open>\<^verbatim>\<open>insert(iterator p, size_type n, value_type const & v)\<close>.\<close>

definition insert_n ::
  "nat \<Rightarrow> nat \<Rightarrow> 'a const_ref \<Rightarrow> 'a state \<Rightarrow> 'a afault + ('a state \<times> nat)" where
  "insert_n p n v s =
     (case s of (m, this) \<Rightarrow>
        let pos = ptr_diff p (v_begin this);
            new_size = add32 (m_size this) n
        in
        if m_capacity this \<le> new_size
        then
          (case reserve_raw new_size m of
             Inl f \<Rightarrow> Inl (lift_fault this f)
           | Inr (new_data, m1) \<Rightarrow>
               (case uninitialized_copy (v_begin this) p new_data m1 of
                  Inl f \<Rightarrow> Inl (lift_fault this f)
                | Inr m2 \<Rightarrow>
                    (case uninitialized_fill (ptr_add new_data pos) (ptr_add new_data pos + n) v m2 of
                       Inl f \<Rightarrow> Inl (lift_fault this f)
                     | Inr m3 \<Rightarrow>
                         (case uninitialized_copy p (v_end this) (ptr_add new_data pos + n) m3 of
                            Inl f \<Rightarrow> Inl (lift_fault this f)
                          | Inr m4 \<Rightarrow>
                              let this1 = this\<lparr>m_size := new_size, m_data := new_data,
                                               m_capacity := new_size\<rparr>
                              in Inr ((deallocate (m_data this) (m_size this) m4, this1),
                                      ptr_add (v_begin this1) pos)))))
        else if m_size this \<le> add32 (to_size_type pos) n
        then
          (let diff = sub32 (add32 (to_size_type pos) n) (m_size this) in
           case uninitialized_copy p (v_end this) (v_end this + diff) m of
             Inl f \<Rightarrow> Inl (lift_fault this f)
           | Inr m1 \<Rightarrow>
               (case uninitialized_fill (v_end this) (v_end this + diff) v m1 of
                  Inl f \<Rightarrow> Inl (lift_fault this f)
                | Inr m2 \<Rightarrow>
                    (case std_fill p (v_end this) v m2 of
                       Inl f \<Rightarrow> Inl (lift_fault this f)
                     | Inr m3 \<Rightarrow>
                         let this1 = this\<lparr>m_size := new_size\<rparr>
                         in Inr ((m3, this1), ptr_add (v_begin this1) pos))))
        else
          (let diff = sub32 (m_size this) (add32 (to_size_type pos) n) in
           case uninitialized_copy (v_end this - n) (v_end this) (v_end this) m of
             Inl f \<Rightarrow> Inl (lift_fault this f)
           | Inr m1 \<Rightarrow>
               (case std_copy_backward p (p + diff) (v_end this) m1 of
                  Inl f \<Rightarrow> Inl (lift_fault this f)
                | Inr m2 \<Rightarrow>
                    (case std_fill p (p + n) v m2 of
                       Inl f \<Rightarrow> Inl (lift_fault this f)
                     | Inr m3 \<Rightarrow>
                         let this1 = this\<lparr>m_size := new_size\<rparr>
                         in Inr ((m3, this1), ptr_add (v_begin this1) pos)))))"

text \<open>\<^verbatim>\<open>erase(iterator p)\<close>; the result has the returned iterator.\<close>

definition erase :: "nat \<Rightarrow> 'a state \<Rightarrow> 'a afault + ('a state \<times> nat)" where
  "erase p s =
     (case s of (m, this) \<Rightarrow>
        (case std_copy (p + 1) (v_end this) p m of
           Inl f \<Rightarrow> Inl (lift_fault this f)
         | Inr m1 \<Rightarrow> Inr (pop_back (m1, this), p)))"

section \<open>Well-formed states\<close>

text \<open>
  The invariants of section 3 of the specification: a view covers live elements; an array
  has \<open>size \<le> capacity\<close>, its block was handed out by the provider, and its first \<open>size\<close>
  slots are live. The provider never hands out the null pointer.
\<close>

definition view_ok :: "'a memory \<Rightarrow> 'z array_vector_view_scheme \<Rightarrow> bool" where
  "view_ok m v = (None \<notin> set (slots m v))"

definition array_ok :: "'a memory \<Rightarrow> array_vector \<Rightarrow> bool" where
  "array_ok m a =
     (0 < brk m \<and> m_size a \<le> m_capacity a \<and> m_capacity a < size_type_modulus \<and>
      (0 < m_capacity a \<longrightarrow> 0 < m_data a \<and> m_data a + m_capacity a \<le> brk m) \<and>
      view_ok m a)"

section \<open>Observing results\<close>

text \<open>What a caller sees of a result: the error raised, or the slots of a view afterwards.\<close>

definition slots_after ::
  "'a fault + 'a memory \<Rightarrow> 'z array_vector_view_scheme \<Rightarrow> error + 'a option list" where
  "slots_after r v = (case r of Inl f \<Rightarrow> Inl (fst f) | Inr m \<Rightarrow> Inr (slots m v))"

text \<open>Running a second view operation on the memory the first one left.\<close>

definition and_then ::
  "'a fault + 'a memory \<Rightarrow> ('a memory \<Rightarrow> 'a fault + 'a memory) \<Rightarrow> 'a fault + 'a memory" where
  "and_then r f = (case r of Inl e \<Rightarrow> Inl e | Inr m \<Rightarrow> f m)"

definition swapData_twice ::
  "'a memory \<Rightarrow> 'y array_vector_view_scheme \<Rightarrow> 'z array_vector_view_scheme \<Rightarrow>
   'a fault + 'a memory" where
  "swapData_twice m this rhs = and_then (swapData m this rhs) (\<lambda>m1. swapData m1 this rhs)"

text \<open>What a caller sees of a member function with an iterator result.\<close>

definition outcome :: "'a afault + ('a state \<times> nat) \<Rightarrow> error + ('a option list \<times> nat)" where
  "outcome r =
     (case r of Inl f \<Rightarrow> Inl (fst f) | Inr (s, p) \<Rightarrow> Inr (slots (fst s) (snd s), p))"

definition state_after :: "'a afault + 'a state \<Rightarrow> error + ('a option list \<times> array_vector)" where
  "state_after r = (case r of Inl f \<Rightarrow> Inl (fst f) | Inr s \<Rightarrow> Inr (slots (fst s) (snd s), snd s))"

definition array_after :: "'a afault + ('a state \<times> nat) \<Rightarrow> error + array_vector" where
  "array_after r = (case r of Inl f \<Rightarrow> Inl (fst f) | Inr (s, p) \<Rightarrow> Inr (snd s))"

text \<open>\<open>insert(position, v)\<close> followed by \<open>erase\<close> at the position \<open>insert\<close> returned.\<close>

definition insert_then_erase ::
  "nat \<Rightarrow> 'a const_ref \<Rightarrow> 'a state \<Rightarrow> 'a afault + ('a state \<times> nat)" where
  "insert_then_erase pos v s =
     (case insert_1 (v_begin (snd s) + pos) v s of
        Inl f \<Rightarrow> Inl f
      | Inr (s1, p) \<Rightarrow> erase p s1)"

section \<open>Example states\<close>

text \<open>The array \<open>[1, 2, 3, 4]\<close> of scenario 4, stored from address 1 on.\<close>

definition mem_1234 :: "int memory" where
  "mem_1234 = \<lparr>cells = [1 \<mapsto> 1, 2 \<mapsto> 2, 3 \<mapsto> 3, 4 \<mapsto> 4], brk = 5, avail = 16\<rparr>"

definition arr_1234 :: array_vector where
  "arr_1234 = \<lparr>m_size = 4, m_data = 1, m_capacity = 4\<rparr>"

text \<open>Its two overlapping subarrays \<open>subarray(0,3)\<close> and \<open>subarray(1,4)\<close>.\<close>

definition sub_0_3 :: array_vector_view where
  "sub_0_3 = \<lparr>m_size = 3, m_data = 1\<rparr>"

definition sub_1_4 :: array_vector_view where
  "sub_1_4 = \<lparr>m_size = 3, m_data = 2\<rparr>"

definition sub_0_2 :: array_vector_view where
  "sub_0_2 = \<lparr>m_size = 2, m_data = 1\<rparr>"

definition sub_2_4 :: array_vector_view where
  "sub_2_4 = \<lparr>m_size = 2, m_data = 3\<rparr>"

text \<open>
  The array \<open>[1, 2, 3]\<close> of scenario 1, once with capacity 3 (as the range constructor
  builds it) and once with capacity 5.
\<close>

definition mem_123 :: "int memory" where
  "mem_123 = \<lparr>cells = [1 \<mapsto> 1, 2 \<mapsto> 2, 3 \<mapsto> 3], brk = 4, avail = 16\<rparr>"

definition arr_123 :: array_vector where
  "arr_123 = \<lparr>m_size = 3, m_data = 1, m_capacity = 3\<rparr>"

definition mem_123_room :: "int memory" where
  "mem_123_room = \<lparr>cells = [1 \<mapsto> 1, 2 \<mapsto> 2, 3 \<mapsto> 3], brk = 6, avail = 16\<rparr>"

definition arr_123_room :: array_vector where
  "arr_123_room = \<lparr>m_size = 3, m_data = 1, m_capacity = 5\<rparr>"

text \<open>The array of scenario 2: capacity 2, length 2, values \<open>[a, b]\<close>.\<close>

definition mem_ab :: "char memory" where
  "mem_ab = \<lparr>cells = [1 \<mapsto> CHR ''a'', 2 \<mapsto> CHR ''b''], brk = 3, avail = 16\<rparr>"

definition arr_ab :: array_vector where
  "arr_ab = \<lparr>m_size = 2, m_data = 1, m_capacity = 2\<rparr>"




section \<open>The copy loops\<close>

lemma cells_poke: "cells (poke a v m) b = (if b = a then Some v else cells m b)"
  by (simp add: poke_def)

lemma brk_poke: "brk (poke a v m) = brk m"
  by (simp add: poke_def)

lemma avail_poke: "avail (poke a v m) = avail m"
  by (simp add: poke_def)

lemma view_ok_iff: "view_ok m v \<longleftrightarrow> (\<forall>i<m_size v. cells m (m_data v + i) \<noteq> None)"
proof -
  have "None \<in> (\<lambda>i. cells m (m_data v + i)) ` {0..<m_size v} \<longleftrightarrow>
        (\<exists>i<m_size v. cells m (m_data v + i) = None)"
    by (auto simp: image_iff) (metis atLeastLessThan_iff zero_le)
  then show ?thesis by (simp add: view_ok_def slots_def)
qed

lemma slots_eqI:
  assumes "m_size v = m_size w"
    and "\<And>i. i < m_size v \<Longrightarrow> cells m (m_data v + i) = cells m' (m_data w + i)"
  shows "slots m v = slots m' w"
  using assms by (simp add: slots_def)

text \<open>
  A front-to-back copy of \<open>n\<close> live slots from \<open>src\<close> to \<open>dst\<close> is right when the
  destination starts at or before the source, or after its end.
\<close>

lemma copy_loop_spec:
  assumes "\<forall>k<n. cells m (src + k) \<noteq> None" and "dst \<le> src \<or> src + n \<le> dst"
  shows "\<exists>m'. copy_loop n src dst m = Inr m' \<and> brk m' = brk m \<and> avail m' = avail m \<and>
           (\<forall>a. cells m' a =
                (if dst \<le> a \<and> a < dst + n then cells m (src + (a - dst)) else cells m a))"
  using assms
proof (induction n arbitrary: src dst m)
  case 0
  then show ?case by auto
next
  case (Suc n)
  from Suc.prems(1) obtain v where v: "cells m src = Some v"
    by (metis add.right_neutral not_None_eq zero_less_Suc)
  let ?m1 = "poke dst v m"
  have live: "\<forall>k<n. cells ?m1 (Suc src + k) \<noteq> None"
  proof (intro allI impI)
    fix k assume "k < n"
    with Suc.prems(1) have "cells m (src + Suc k) \<noteq> None" by (metis Suc_less_eq)
    then show "cells ?m1 (Suc src + k) \<noteq> None" by (simp add: cells_poke)
  qed
  have ord: "Suc dst \<le> Suc src \<or> Suc src + n \<le> Suc dst"
    using Suc.prems(2) by auto
  from Suc.IH [OF live ord] obtain m' where
    run: "copy_loop n (Suc src) (Suc dst) ?m1 = Inr m'" and
    b: "brk m' = brk ?m1" and av: "avail m' = avail ?m1" and
    c: "\<forall>a. cells m' a = (if Suc dst \<le> a \<and> a < Suc dst + n
                             then cells ?m1 (Suc src + (a - Suc dst)) else cells ?m1 a)"
    by blast
  have "\<forall>a. cells m' a =
          (if dst \<le> a \<and> a < dst + Suc n then cells m (src + (a - dst)) else cells m a)"
  proof
    fix a
    show "cells m' a =
            (if dst \<le> a \<and> a < dst + Suc n then cells m (src + (a - dst)) else cells m a)"
    proof (cases "Suc dst \<le> a \<and> a < Suc dst + n")
      case True
      then have ne: "Suc src + (a - Suc dst) \<noteq> dst" using Suc.prems(2) by auto
      have eq: "Suc src + (a - Suc dst) = src + (a - dst)" using True by auto
      from c True have "cells m' a = cells ?m1 (Suc src + (a - Suc dst))" by simp
      also have "\<dots> = cells m (Suc src + (a - Suc dst))" using ne by (simp add: cells_poke)
      finally show ?thesis using True eq by auto
    next
      case False
      with c have "cells m' a = cells ?m1 a" by auto
      then show ?thesis using False v by (auto simp: cells_poke)
    qed
  qed
  with run b av v show ?case by (simp add: brk_poke avail_poke)
qed

text \<open>
  A back-to-front copy is right when the destination starts at or after the source, or ends
  before it.
\<close>

lemma copy_backward_loop_spec:
  assumes "\<forall>k<n. cells m (src + k) \<noteq> None" and "src \<le> dst \<or> dst + n \<le> src"
  shows "\<exists>m'. copy_backward_loop n (src + n) (dst + n) m = Inr m' \<and> brk m' = brk m \<and>
           avail m' = avail m \<and>
           (\<forall>a. cells m' a =
                (if dst \<le> a \<and> a < dst + n then cells m (src + (a - dst)) else cells m a))"
  using assms
proof (induction n arbitrary: m)
  case 0
  then show ?case by auto
next
  case (Suc n)
  from Suc.prems(1) obtain v where v: "cells m (src + n) = Some v"
    by (metis lessI not_None_eq)
  let ?m1 = "poke (dst + n) v m"
  have live: "\<forall>k<n. cells ?m1 (src + k) \<noteq> None"
    using Suc.prems(1) by (simp add: cells_poke)
  have ord: "src \<le> dst \<or> dst + n \<le> src"
    using Suc.prems(2) by auto
  from Suc.IH [OF live ord] obtain m' where
    run: "copy_backward_loop n (src + n) (dst + n) ?m1 = Inr m'" and
    b: "brk m' = brk ?m1" and av: "avail m' = avail ?m1" and
    c: "\<forall>a. cells m' a = (if dst \<le> a \<and> a < dst + n
                             then cells ?m1 (src + (a - dst)) else cells ?m1 a)"
    by blast
  have "\<forall>a. cells m' a =
          (if dst \<le> a \<and> a < dst + Suc n then cells m (src + (a - dst)) else cells m a)"
  proof
    fix a
    show "cells m' a =
            (if dst \<le> a \<and> a < dst + Suc n then cells m (src + (a - dst)) else cells m a)"
    proof (cases "dst \<le> a \<and> a < dst + n")
      case True
      then have ne: "src + (a - dst) \<noteq> dst + n" using Suc.prems(2) by auto
      from c True have "cells m' a = cells ?m1 (src + (a - dst))" by simp
      also have "\<dots> = cells m (src + (a - dst))" using ne by (simp add: cells_poke)
      finally show ?thesis using True by auto
    next
      case False
      with c have "cells m' a = cells ?m1 a" by auto
      then show ?thesis using False v by (auto simp: cells_poke)
    qed
  qed
  with run b av v show ?case by (simp add: brk_poke avail_poke)
qed

lemma fill_loop_spec:
  "\<exists>m'. fill_loop n first (Outside x) m = Inr m' \<and> brk m' = brk m \<and> avail m' = avail m \<and>
        (\<forall>a. cells m' a = (if first \<le> a \<and> a < first + n then Some x else cells m a))"
proof (induction n arbitrary: first m)
  case 0
  then show ?case by auto
next
  case (Suc n)
  let ?m1 = "poke first x m"
  from Suc.IH [of "Suc first" ?m1] obtain m' where
    run: "fill_loop n (Suc first) (Outside x) ?m1 = Inr m'" and
    b: "brk m' = brk ?m1" and av: "avail m' = avail ?m1" and
    c: "\<forall>a. cells m' a = (if Suc first \<le> a \<and> a < Suc first + n then Some x else cells ?m1 a)"
    by blast
  from c have "\<forall>a. cells m' a =
                 (if first \<le> a \<and> a < first + Suc n then Some x else cells m a)"
    by (auto simp: cells_poke)
  with run b av show ?case by (simp add: brk_poke avail_poke)
qed

lemma destroy_n_spec:
  "brk (destroy_n p n m) = brk m \<and> avail (destroy_n p n m) = avail m \<and>
   (\<forall>a. cells (destroy_n p n m) a = (if p \<le> a \<and> a < p + n then None else cells m a))"
  by (induction n arbitrary: p m) auto

section \<open>Copying between views\<close>

lemma copyImpl_works:
  assumes "m_size this = m_size rhs" and "view_ok m rhs"
  shows "\<exists>m'. copyImpl m this rhs = Inr m' \<and> brk m' = brk m \<and> avail m' = avail m \<and>
           (\<forall>a. cells m' a =
                (if m_data this \<le> a \<and> a < m_data this + m_size this
                 then cells m (m_data rhs + (a - m_data this)) else cells m a))"
proof -
  from assms(2) have live: "\<forall>k<m_size this. cells m (m_data rhs + k) \<noteq> None"
    by (simp add: view_ok_iff assms(1))
  show ?thesis
  proof (cases "m_data this \<le> m_data rhs")
    case True
    then have "copyImpl m this rhs = copy_loop (m_size this) (m_data rhs) (m_data this) m"
      by (simp add: copyImpl_def vigra_precondition_def std_copy_def v_begin_def v_end_def assms(1))
    with copy_loop_spec [OF live, of "m_data this"] True show ?thesis by simp
  next
    case False
    then have "copyImpl m this rhs =
        copy_backward_loop (m_size this) (m_data rhs + m_size this) (m_data this + m_size this) m"
      by (simp add: copyImpl_def vigra_precondition_def std_copy_backward_def v_begin_def
          v_end_def assms(1))
    with copy_backward_loop_spec [OF live, of "m_data this"] False show ?thesis by simp
  qed
qed

text \<open>
  C3. An element-wise copy between two views of the same length whose source slots are live
  succeeds, whether or not the ranges overlap; it runs \<^verbatim>\<open>std::copy\<close> (front to back) when
  this view starts at or before \<open>rhs\<close> and \<^verbatim>\<open>std::copy_backward\<close> otherwise; and afterwards
  this view holds the element sequence \<open>rhs\<close> held before.
\<close>

theorem copyImpl_alias_correct:
  assumes "m_size this = m_size rhs" and "view_ok m rhs"
  shows "\<exists>m'. copyImpl m this rhs = Inr m' \<and> slots m' this = slots m rhs \<and>
           copyImpl m this rhs =
             (if m_data this \<le> m_data rhs
              then std_copy (v_begin rhs) (v_end rhs) (v_begin this) m
              else std_copy_backward (v_begin rhs) (v_end rhs) (v_end this) m)"
proof -
  from copyImpl_works [OF assms] obtain m' where
    run: "copyImpl m this rhs = Inr m'" and
    c: "\<forall>a. cells m' a =
           (if m_data this \<le> a \<and> a < m_data this + m_size this
            then cells m (m_data rhs + (a - m_data this)) else cells m a)"
    by blast
  have "slots m' this = slots m rhs"
    by (rule slots_eqI) (simp_all add: assms(1) c)
  moreover have "copyImpl m this rhs =
             (if m_data this \<le> m_data rhs
              then std_copy (v_begin rhs) (v_end rhs) (v_begin this) m
              else std_copy_backward (v_begin rhs) (v_end rhs) (v_end this) m)"
    by (simp add: copyImpl_def vigra_precondition_def assms(1))
  ultimately show ?thesis using run by blast
qed

theorem copyImpl_alias_correct_witness:
  "m_size sub_0_3 = m_size sub_1_4 \<and> view_ok mem_1234 sub_1_4 \<and> view_ok mem_1234 sub_0_3 \<and>
   slots_after (copyImpl mem_1234 sub_0_3 sub_1_4) sub_0_3 = Inr [Some 2, Some 3, Some 4] \<and>
   slots_after (copyImpl mem_1234 sub_1_4 sub_0_3) sub_1_4 = Inr [Some 1, Some 2, Some 3]"
proof -
  have h1: "m_size sub_0_3 = m_size sub_1_4" by code_simp
  have h2: "view_ok mem_1234 sub_1_4" by code_simp
  have h3: "view_ok mem_1234 sub_0_3" by code_simp
  have s1: "slots mem_1234 sub_1_4 = [Some 2, Some 3, Some 4]" by code_simp
  have s2: "slots mem_1234 sub_0_3 = [Some 1, Some 2, Some 3]" by code_simp
  from copyImpl_alias_correct [OF h1 h2] s1
  have "slots_after (copyImpl mem_1234 sub_0_3 sub_1_4) sub_0_3 = Inr [Some 2, Some 3, Some 4]"
    by (auto simp: slots_after_def)
  moreover from copyImpl_alias_correct [OF h1 [symmetric] h3] s2
  have "slots_after (copyImpl mem_1234 sub_1_4 sub_0_3) sub_1_4 = Inr [Some 1, Some 2, Some 3]"
    by (auto simp: slots_after_def)
  ultimately show ?thesis using h1 h2 h3 by blast
qed

text \<open>What \<open>copy\<close> does in each case of lengths and starting addresses.\<close>

lemma copy_shape_mismatch:
  assumes "m_size this \<noteq> m_size rhs" and "m_data this \<noteq> m_data rhs"
  shows "copy m this rhs =
           Inl (PreconditionViolation ''ArrayVectorView::copy(): shape mismatch.'', m)"
  using assms by (simp add: copy_def copyImpl_def vigra_precondition_def)

lemma copy_same_start:
  assumes "m_data this = m_data rhs"
  shows "copy m this rhs = Inr m"
  using assms by (simp add: copy_def)

text \<open>
  C5. The claim does not hold of the code: two views of different lengths that start at the
  same address (here \<open>subarray(0,3)\<close> and \<open>subarray(0,2)\<close> of one array) are not
  rejected; \<open>copy\<close> returns without an error and without a change, because the test
  \<^verbatim>\<open>data_ != rhs.data_\<close> skips \<open>copyImpl\<close> and with it the shape check.
\<close>

theorem copy_same_start_skips_shape_check:
  "m_size sub_0_3 \<noteq> m_size sub_0_2 \<and> m_data sub_0_3 = m_data sub_0_2 \<and>
   copy mem_1234 sub_0_3 sub_0_2 = Inr mem_1234"
  by (simp add: copy_def sub_0_3_def sub_0_2_def)

section \<open>Swapping between views\<close>

lemma subarrays_of_1234:
  "subarray mem_1234 arr_1234 0 3 = Inr sub_0_3"
  "subarray mem_1234 arr_1234 1 4 = Inr sub_1_4"
  by (simp_all add: subarray_def vigra_precondition_def arr_1234_def sub_0_3_def sub_1_4_def)

text \<open>
  C1. The claim does not hold of the code. On the array \<open>[1, 2, 3, 4]\<close>, \<open>swapData\<close>
  between \<open>subarray(0,3)\<close> and \<open>subarray(1,4)\<close> leaves \<open>[2, 2, 3, 4]\<close>, while the swap
  through an independent temporary copy leaves \<open>[2, 1, 2, 3]\<close>: \<open>swapDataImpl\<close> builds
  the temporary \<open>t\<close> but copies \<^verbatim>\<open>*this\<close> back into \<open>rhs\<close> instead of \<open>t\<close>. Neither
  result is \<open>[2, 3, 4, 1]\<close>.
\<close>

theorem swapData_overlap_ignores_temporary:
  "slots_after (swapData mem_1234 sub_0_3 sub_1_4) arr_1234 =
     Inr [Some 2, Some 2, Some 3, Some 4] \<and>
   slots_after (swap_by_temporary mem_1234 sub_0_3 sub_1_4) arr_1234 =
     Inr [Some 2, Some 1, Some 2, Some 3]"
  by code_simp

text \<open>
  The loop of direct swaps exchanges two live ranges that do not overlap.
\<close>

lemma swap_loop_spec:
  assumes "\<forall>k<n. cells m (a + k) \<noteq> None" and "\<forall>k<n. cells m (b + k) \<noteq> None"
    and "a + n \<le> b \<or> b + n \<le> a"
  shows "\<exists>m'. swap_loop n a b m = Inr m' \<and> brk m' = brk m \<and> avail m' = avail m \<and>
           (\<forall>x. cells m' x =
                (if a \<le> x \<and> x < a + n then cells m (b + (x - a))
                 else if b \<le> x \<and> x < b + n then cells m (a + (x - b)) else cells m x))"
  using assms
proof (induction n arbitrary: a b m)
  case 0
  then show ?case by auto
next
  case (Suc n)
  from Suc.prems(1) obtain u where u: "cells m a = Some u"
    by (metis add.right_neutral not_None_eq zero_less_Suc)
  from Suc.prems(2) obtain w where w: "cells m b = Some w"
    by (metis add.right_neutral not_None_eq zero_less_Suc)
  let ?m1 = "poke b u (poke a w m)"
  have c1: "\<And>x. cells ?m1 x = (if x = b then Some u else if x = a then Some w else cells m x)"
    by (simp add: cells_poke)
  have la: "\<forall>k<n. cells ?m1 (Suc a + k) \<noteq> None"
  proof (intro allI impI)
    fix k assume "k < n"
    with Suc.prems(1) have "cells m (a + Suc k) \<noteq> None" by (metis Suc_less_eq)
    then show "cells ?m1 (Suc a + k) \<noteq> None" by (simp add: c1)
  qed
  have lb: "\<forall>k<n. cells ?m1 (Suc b + k) \<noteq> None"
  proof (intro allI impI)
    fix k assume "k < n"
    with Suc.prems(2) have "cells m (b + Suc k) \<noteq> None" by (metis Suc_less_eq)
    then show "cells ?m1 (Suc b + k) \<noteq> None" by (simp add: c1)
  qed
  have ord: "Suc a + n \<le> Suc b \<or> Suc b + n \<le> Suc a"
    using Suc.prems(3) by auto
  from Suc.IH [OF la lb ord] obtain m' where
    run: "swap_loop n (Suc a) (Suc b) ?m1 = Inr m'" and
    bk: "brk m' = brk ?m1" and av: "avail m' = avail ?m1" and
    c: "\<forall>x. cells m' x =
           (if Suc a \<le> x \<and> x < Suc a + n then cells ?m1 (Suc b + (x - Suc a))
            else if Suc b \<le> x \<and> x < Suc b + n then cells ?m1 (Suc a + (x - Suc b))
            else cells ?m1 x)"
    by blast
  have "\<forall>x. cells m' x =
           (if a \<le> x \<and> x < a + Suc n then cells m (b + (x - a))
            else if b \<le> x \<and> x < b + Suc n then cells m (a + (x - b)) else cells m x)"
  proof
    fix x
    consider (ina) "Suc a \<le> x \<and> x < Suc a + n" | (inb) "Suc b \<le> x \<and> x < Suc b + n"
      | (isa) "x = a" | (isb) "x = b"
      | (out) "\<not> (a \<le> x \<and> x < a + Suc n) \<and> \<not> (b \<le> x \<and> x < b + Suc n)"
      by linarith
    then show "cells m' x =
           (if a \<le> x \<and> x < a + Suc n then cells m (b + (x - a))
            else if b \<le> x \<and> x < b + Suc n then cells m (a + (x - b)) else cells m x)"
    proof cases
      case ina
      then have e: "Suc b + (x - Suc a) = b + (x - a)" by auto
      from ina Suc.prems(3) have ne: "b + (x - a) \<noteq> b" "b + (x - a) \<noteq> a" by auto
      from c ina have "cells m' x = cells ?m1 (Suc b + (x - Suc a))" by simp
      then show ?thesis using ina e ne by (simp add: c1)
    next
      case inb
      then have e: "Suc a + (x - Suc b) = a + (x - b)" by auto
      from inb Suc.prems(3) have ne: "a + (x - b) \<noteq> b" "a + (x - b) \<noteq> a" by auto
      from inb Suc.prems(3) have nina: "\<not> (Suc a \<le> x \<and> x < Suc a + n)" "\<not> (a \<le> x \<and> x < a + Suc n)" by auto
      from c inb nina have "cells m' x = cells ?m1 (Suc a + (x - Suc b))" by auto
      then show ?thesis using inb e ne nina by (auto simp: c1)
    next
      case isa
      with Suc.prems(3) have "\<not> (Suc a \<le> x \<and> x < Suc a + n)" "\<not> (Suc b \<le> x \<and> x < Suc b + n)" "x \<noteq> b"
        by auto
      with c have "cells m' x = cells ?m1 x" by auto
      then show ?thesis using isa w \<open>x \<noteq> b\<close> by (simp add: c1)
    next
      case isb
      with Suc.prems(3) have n: "\<not> (Suc a \<le> x \<and> x < Suc a + n)" "\<not> (Suc b \<le> x \<and> x < Suc b + n)"
         "\<not> (a \<le> x \<and> x < a + Suc n)"
        by auto
      with c have "cells m' x = cells ?m1 x" by auto
      then show ?thesis using isb u n by (auto simp: c1)
    next
      case out
      then have n: "\<not> (Suc a \<le> x \<and> x < Suc a + n)" "\<not> (Suc b \<le> x \<and> x < Suc b + n)" "x \<noteq> a" "x \<noteq> b"
        by auto
      with c have "cells m' x = cells ?m1 x" by auto
      then show ?thesis using out n by (auto simp: c1)
    qed
  qed
  with run bk av u w show ?case by (simp add: brk_poke avail_poke)
qed

lemma swapData_disjoint:
  assumes eq: "m_size this = m_size rhs" and ok1: "view_ok m this" and ok2: "view_ok m rhs"
    and dj: "m_data this + m_size this \<le> m_data rhs \<or> m_data rhs + m_size this \<le> m_data this"
    and ne: "m_data this \<noteq> m_data rhs"
  shows "\<exists>m'. swapData m this rhs = Inr m' \<and> brk m' = brk m \<and> avail m' = avail m \<and>
           (\<forall>x. cells m' x =
                (if m_data this \<le> x \<and> x < m_data this + m_size this
                 then cells m (m_data rhs + (x - m_data this))
                 else if m_data rhs \<le> x \<and> x < m_data rhs + m_size this
                 then cells m (m_data this + (x - m_data rhs)) else cells m x))"
proof -
  have "swapData m this rhs = swap_loop (m_size this) (m_data this) (m_data rhs) m"
    using eq dj ne by (simp add: swapData_def swapDataImpl_def vigra_precondition_def)
  moreover have "\<forall>k<m_size this. cells m (m_data this + k) \<noteq> None"
    using ok1 by (simp add: view_ok_iff)
  moreover have "\<forall>k<m_size this. cells m (m_data rhs + k) \<noteq> None"
    using ok2 eq by (simp add: view_ok_iff)
  ultimately show ?thesis using swap_loop_spec [OF _ _ dj, of m] by simp
qed

text \<open>
  C2, as stated, fails for partially overlapping ranges: on the array \<open>[1, 2, 3, 4]\<close>, two
  calls of \<open>swapData\<close> between \<open>subarray(0,3)\<close> and \<open>subarray(1,4)\<close> leave
  \<open>[2, 2, 3, 4]\<close>, not the original contents.
\<close>

theorem swapData_twice_overlap_not_restored:
  "m_size sub_0_3 = m_size sub_1_4 \<and>
   slots mem_1234 arr_1234 = [Some 1, Some 2, Some 3, Some 4] \<and>
   slots_after (swapData_twice mem_1234 sub_0_3 sub_1_4) arr_1234 =
     Inr [Some 2, Some 2, Some 3, Some 4]"
  by code_simp

text \<open>
  Two rounds of the three steps as the specification words them do not restore overlapping
  ranges either.
\<close>

lemma swap_by_temporary_twice_overlap:
  "slots_after (and_then (swap_by_temporary mem_1234 sub_0_3 sub_1_4)
                  (\<lambda>m. swap_by_temporary m sub_0_3 sub_1_4)) arr_1234 =
     Inr [Some 1, Some 2, Some 1, Some 2]"
  by code_simp

text \<open>
  C2, amended. For two views of the same length over live slots that start at the same
  address or whose ranges do not overlap, applying \<open>swapData\<close> twice with the same
  argument succeeds and restores the storage, and so the contents of both views.
\<close>

theorem swapData_self_inverse:
  assumes eq: "m_size this = m_size rhs" and ok1: "view_ok m this" and ok2: "view_ok m rhs"
    and dj: "m_data this = m_data rhs \<or> m_data this + m_size this \<le> m_data rhs \<or>
             m_data rhs + m_size this \<le> m_data this"
  shows "\<exists>m'. swapData_twice m this rhs = Inr m' \<and> cells m' = cells m \<and>
           slots m' this = slots m this \<and> slots m' rhs = slots m rhs"
proof (cases "m_data this = m_data rhs")
  case True
  then show ?thesis by (simp add: swapData_twice_def swapData_def and_then_def)
next
  case False
  with dj have dj': "m_data this + m_size this \<le> m_data rhs \<or> m_data rhs + m_size this \<le> m_data this"
    by simp
  let ?P = "\<lambda>m m' x. cells m' x =
                (if m_data this \<le> x \<and> x < m_data this + m_size this
                 then cells m (m_data rhs + (x - m_data this))
                 else if m_data rhs \<le> x \<and> x < m_data rhs + m_size this
                 then cells m (m_data this + (x - m_data rhs)) else cells m x)"
  from swapData_disjoint [OF eq ok1 ok2 dj' False] obtain m1 where
    r1: "swapData m this rhs = Inr m1" and c1: "\<forall>x. ?P m m1 x" by blast
  have ok1': "view_ok m1 this"
    unfolding view_ok_iff
  proof (intro allI impI)
    fix i assume "i < m_size this"
    then have "cells m1 (m_data this + i) = cells m (m_data rhs + i)" using c1 by simp
    then show "cells m1 (m_data this + i) \<noteq> None" using ok2 eq \<open>i < m_size this\<close>
      by (simp add: view_ok_iff)
  qed
  have ok2': "view_ok m1 rhs"
    unfolding view_ok_iff
  proof (intro allI impI)
    fix i assume i: "i < m_size rhs"
    with dj' eq have "\<not> (m_data this \<le> m_data rhs + i \<and> m_data rhs + i < m_data this + m_size this)"
      by auto
    with i eq c1 have "cells m1 (m_data rhs + i) = cells m (m_data this + i)" by auto
    then show "cells m1 (m_data rhs + i) \<noteq> None" using ok1 eq i
      by (simp add: view_ok_iff)
  qed
  from swapData_disjoint [OF eq ok1' ok2' dj' False] obtain m2 where
    r2: "swapData m1 this rhs = Inr m2" and c2: "\<forall>x. ?P m1 m2 x" by blast
  have "cells m2 x = cells m x" for x
  proof -
    consider (a) "m_data this \<le> x \<and> x < m_data this + m_size this"
      | (b) "m_data rhs \<le> x \<and> x < m_data rhs + m_size this"
      | (c) "\<not> (m_data this \<le> x \<and> x < m_data this + m_size this) \<and>
             \<not> (m_data rhs \<le> x \<and> x < m_data rhs + m_size this)"
      by blast
    then show ?thesis
    proof cases
      case a
      let ?y = "m_data rhs + (x - m_data this)"
      from a dj' have ny: "\<not> (m_data this \<le> ?y \<and> ?y < m_data this + m_size this)"
        and iy: "m_data rhs \<le> ?y \<and> ?y < m_data rhs + m_size this"
        and inv: "m_data this + (?y - m_data rhs) = x" by auto
      from c2 a have "cells m2 x = cells m1 ?y" by simp
      also from c1 ny iy have "\<dots> = cells m (m_data this + (?y - m_data rhs))" by auto
      finally show ?thesis using inv by simp
    next
      case b
      let ?y = "m_data this + (x - m_data rhs)"
      from b dj' have nx: "\<not> (m_data this \<le> x \<and> x < m_data this + m_size this)"
        and iy: "m_data this \<le> ?y \<and> ?y < m_data this + m_size this"
        and inv: "m_data rhs + (?y - m_data this) = x" by auto
      from c2 b nx have "cells m2 x = cells m1 ?y" by auto
      also from c1 iy have "\<dots> = cells m (m_data rhs + (?y - m_data this))" by simp
      finally show ?thesis using inv by simp
    next
      case c
      with c2 have "cells m2 x = cells m1 x" by auto
      with c c1 show ?thesis by auto
    qed
  qed
  then have same: "cells m2 = cells m" by (rule ext)
  then have "slots m2 this = slots m this" "slots m2 rhs = slots m rhs"
    by (simp_all add: slots_def)
  with r1 r2 same show ?thesis
    by (simp add: swapData_twice_def and_then_def)
qed

theorem swapData_self_inverse_witness:
  "m_size sub_0_2 = m_size sub_2_4 \<and> view_ok mem_1234 sub_0_2 \<and> view_ok mem_1234 sub_2_4 \<and>
   m_data sub_0_2 + m_size sub_0_2 \<le> m_data sub_2_4 \<and>
   slots_after (swapData mem_1234 sub_0_2 sub_2_4) arr_1234 =
     Inr [Some 3, Some 4, Some 1, Some 2] \<and>
   (\<exists>m'. swapData_twice mem_1234 sub_0_2 sub_2_4 = Inr m' \<and>
         slots m' sub_0_2 = [Some 1, Some 2] \<and> slots m' sub_2_4 = [Some 3, Some 4])"
proof -
  have h1: "m_size sub_0_2 = m_size sub_2_4" by code_simp
  have h2: "view_ok mem_1234 sub_0_2" by code_simp
  have h3: "view_ok mem_1234 sub_2_4" by code_simp
  have h4: "m_data sub_0_2 + m_size sub_0_2 \<le> m_data sub_2_4" by code_simp
  have s1: "slots mem_1234 sub_0_2 = [Some 1, Some 2]" by code_simp
  have s2: "slots mem_1234 sub_2_4 = [Some 3, Some 4]" by code_simp
  have once: "slots_after (swapData mem_1234 sub_0_2 sub_2_4) arr_1234 =
     Inr [Some 3, Some 4, Some 1, Some 2]" by code_simp
  from swapData_self_inverse [OF h1 h2 h3] h4 s1 s2
  have "\<exists>m'. swapData_twice mem_1234 sub_0_2 sub_2_4 = Inr m' \<and>
         slots m' sub_0_2 = [Some 1, Some 2] \<and> slots m' sub_2_4 = [Some 3, Some 4]"
    by auto
  with h1 h2 h3 h4 once show ?thesis by blast
qed

section \<open>Capacity: reserve\<close>

lemma allocate_ok:
  "n \<le> avail m \<Longrightarrow> allocate n m = Inr (brk m, m\<lparr>brk := brk m + n, avail := avail m - n\<rparr>)"
  by (simp add: allocate_def)

lemma allocate_fail:
  "avail m < n \<Longrightarrow> allocate n m = Inl (MemoryExhaustion, m)"
  by (simp add: allocate_def)

lemma array_ok_block:
  assumes "array_ok m a" and "0 < m_size a"
  shows "0 < m_data a" and "m_data a + m_size a \<le> brk m"
  using assms by (auto simp: array_ok_def)

lemma array_ok_live:
  assumes "array_ok m a"
  shows "\<forall>k<m_size a. cells m (m_data a + k) \<noteq> None"
  using assms by (simp add: array_ok_def view_ok_iff)

text \<open>Moving the elements of an array into a fresh block at \<open>brk\<close>.\<close>

lemma reserve_grows:
  assumes ok: "array_ok m a" and big: "m_capacity a < n" and fit: "n \<le> avail m"
  shows "\<exists>m'. reserve n (m, a) = Inr (m', a\<lparr>m_data := brk m, m_capacity := n\<rparr>) \<and>
           brk m' = brk m + n \<and> avail m' = avail m - n \<and>
           (\<forall>x. cells m' x =
                (if brk m \<le> x \<and> x < brk m + m_size a then cells m (m_data a + (x - brk m))
                 else if m_data a \<le> x \<and> x < m_data a + m_size a then None
                 else cells m x))"
proof -
  let ?m1 = "m\<lparr>brk := brk m + n, avail := avail m - n\<rparr>"
  from big fit have raw: "reserve_raw n m = Inr (brk m, ?m1)"
    by (simp add: reserve_raw_def allocate_ok)
  have live: "\<forall>k<m_size a. cells ?m1 (m_data a + k) \<noteq> None"
    using array_ok_live [OF ok] by simp
  have ord: "brk m \<le> m_data a \<or> m_data a + m_size a \<le> brk m"
    using ok by (cases "m_size a = 0") (auto simp: array_ok_def)
  from copy_loop_spec [OF live ord] obtain m2 where
    cp: "copy_loop (m_size a) (m_data a) (brk m) ?m1 = Inr m2" and
    b2: "brk m2 = brk m + n" and a2: "avail m2 = avail m - n" and
    c2: "\<forall>x. cells m2 x = (if brk m \<le> x \<and> x < brk m + m_size a
                            then cells m (m_data a + (x - brk m)) else cells m x)"
    by auto
  have cp': "(if 0 < m_size a
              then uninitialized_copy (m_data a) (m_data a + m_size a) (brk m) ?m1
              else Inr ?m1) = Inr m2"
    using cp by (cases "m_size a = 0") (simp_all add: uninitialized_copy_def)
  let ?m3 = "deallocate (m_data a) (m_size a) m2"
  have run: "reserve n (m, a) = Inr (?m3, a\<lparr>m_data := brk m, m_capacity := n\<rparr>)"
    using big raw cp' by (simp add: reserve_def)
  have d: "brk ?m3 = brk m2 \<and> avail ?m3 = avail m2 \<and>
           (\<forall>x. cells ?m3 x = (if m_data a \<noteq> 0 \<and> m_data a \<le> x \<and> x < m_data a + m_size a
                                 then None else cells m2 x))"
    using destroy_n_spec [of "m_data a" "m_size a" m2]
    by (simp add: deallocate_def alloc_deallocate_def)
  have "\<forall>x. cells ?m3 x =
                (if brk m \<le> x \<and> x < brk m + m_size a then cells m (m_data a + (x - brk m))
                 else if m_data a \<le> x \<and> x < m_data a + m_size a then None
                 else cells m x)"
  proof
    fix x
    show "cells ?m3 x =
                (if brk m \<le> x \<and> x < brk m + m_size a then cells m (m_data a + (x - brk m))
                 else if m_data a \<le> x \<and> x < m_data a + m_size a then None
                 else cells m x)"
    proof (cases "m_size a = 0")
      case True
      with d c2 show ?thesis by auto
    next
      case False
      with array_ok_block [OF ok] have "0 < m_data a" "m_data a + m_size a \<le> brk m" by simp_all
      with d c2 show ?thesis by auto
    qed
  qed
  with run d b2 a2 show ?thesis by simp
qed

lemma reserve_grows_slots:
  assumes ok: "array_ok m a" and big: "m_capacity a < n" and fit: "n \<le> avail m"
  shows "\<exists>m'. reserve n (m, a) = Inr (m', a\<lparr>m_data := brk m, m_capacity := n\<rparr>) \<and>
           slots m' (a\<lparr>m_data := brk m, m_capacity := n\<rparr>) = slots m a \<and>
           brk m' = brk m + n \<and> avail m' = avail m - n"
proof -
  from reserve_grows [OF assms] obtain m' where
    run: "reserve n (m, a) = Inr (m', a\<lparr>m_data := brk m, m_capacity := n\<rparr>)" and
    b: "brk m' = brk m + n" "avail m' = avail m - n" and
    c: "\<forall>x. cells m' x =
                (if brk m \<le> x \<and> x < brk m + m_size a then cells m (m_data a + (x - brk m))
                 else if m_data a \<le> x \<and> x < m_data a + m_size a then None
                 else cells m x)"
    by blast
  have "slots m' (a\<lparr>m_data := brk m, m_capacity := n\<rparr>) = slots m a"
    by (rule slots_eqI) (simp_all add: c)
  with run b show ?thesis by blast
qed

lemma reserve_grows_ok:
  assumes ok: "array_ok m a" and big: "m_capacity a < n" and fit: "n \<le> avail m"
    and n: "n < size_type_modulus"
    and run: "reserve n (m, a) = Inr (m', a')"
  shows "array_ok m' a'"
proof -
  from reserve_grows_slots [OF ok big fit] run have
    a': "a' = a\<lparr>m_data := brk m, m_capacity := n\<rparr>" and
    s: "slots m' a' = slots m a" and b: "brk m' = brk m + n"
    by auto
  from ok have "view_ok m a" "0 < brk m" "m_size a \<le> m_capacity a" by (simp_all add: array_ok_def)
  with s have "view_ok m' a'" by (simp add: view_ok_def)
  with a' b big n \<open>0 < brk m\<close> \<open>m_size a \<le> m_capacity a\<close> show ?thesis
    by (simp add: array_ok_def)
qed

text \<open>
  C8. On a well-formed array, \<open>reserve(n)\<close> returns without any change when \<open>n\<close> is at
  most the capacity; otherwise, when the provider can supply \<open>n\<close> slots, the capacity
  becomes exactly \<open>n\<close> and the elements are moved to a fresh block, unchanged; and when
  the provider cannot, \<open>MemoryExhaustion\<close> is raised with nothing changed. In every case
  the capacity does not decrease and length and element values stay as they were.
\<close>

theorem reserve_frame:
  assumes "array_ok m a"
  shows "(n \<le> m_capacity a \<longrightarrow> reserve n (m, a) = Inr (m, a)) \<and>
         (m_capacity a < n \<and> n \<le> avail m \<longrightarrow>
            (\<exists>m'. reserve n (m, a) = Inr (m', a\<lparr>m_data := brk m, m_capacity := n\<rparr>) \<and>
                  slots m' (a\<lparr>m_data := brk m, m_capacity := n\<rparr>) = slots m a)) \<and>
         (m_capacity a < n \<and> avail m < n \<longrightarrow>
            reserve n (m, a) = Inl (MemoryExhaustion, (m, a))) \<and>
         (case reserve n (m, a) of
            Inl f \<Rightarrow> snd f = (m, a)
          | Inr (m', a') \<Rightarrow> m_capacity a \<le> m_capacity a' \<and> m_size a' = m_size a \<and>
                              slots m' a' = slots m a)"
proof -
  have stay: "n \<le> m_capacity a \<Longrightarrow> reserve n (m, a) = Inr (m, a)"
    by (simp add: reserve_def)
  have fail: "m_capacity a < n \<Longrightarrow> avail m < n \<Longrightarrow>
              reserve n (m, a) = Inl (MemoryExhaustion, (m, a))"
    by (simp add: reserve_def reserve_raw_def allocate_fail lift_fault_def)
  have grow: "m_capacity a < n \<Longrightarrow> n \<le> avail m \<Longrightarrow>
            (\<exists>m'. reserve n (m, a) = Inr (m', a\<lparr>m_data := brk m, m_capacity := n\<rparr>) \<and>
                  slots m' (a\<lparr>m_data := brk m, m_capacity := n\<rparr>) = slots m a)"
    using reserve_grows_slots [OF assms] by blast
  have "case reserve n (m, a) of
            Inl f \<Rightarrow> snd f = (m, a)
          | Inr (m', a') \<Rightarrow> m_capacity a \<le> m_capacity a' \<and> m_size a' = m_size a \<and>
                              slots m' a' = slots m a"
  proof -
    consider "n \<le> m_capacity a" | "m_capacity a < n" "avail m < n"
      | "m_capacity a < n" "n \<le> avail m"
      by linarith
    then show ?thesis
    proof cases
      case 1
      then show ?thesis by (simp add: stay)
    next
      case 2
      then show ?thesis by (simp add: fail)
    next
      case 3
      from grow [OF 3] obtain m' where
        "reserve n (m, a) = Inr (m', a\<lparr>m_data := brk m, m_capacity := n\<rparr>)"
        "slots m' (a\<lparr>m_data := brk m, m_capacity := n\<rparr>) = slots m a"
        by blast
      with 3 show ?thesis by simp
    qed
  qed
  with stay fail grow show ?thesis by blast
qed

theorem reserve_frame_witness:
  "array_ok mem_123 arr_123 \<and>
   reserve 2 (mem_123, arr_123) = Inr (mem_123, arr_123) \<and>
   (\<exists>m'. reserve 7 (mem_123, arr_123) = Inr (m', \<lparr>m_size = 3, m_data = 4, m_capacity = 7\<rparr>) \<and>
         slots m' \<lparr>m_size = 3, m_data = 4, m_capacity = 7\<rparr> = [Some 1, Some 2, Some 3]) \<and>
   reserve 700 (mem_123, arr_123) = Inl (MemoryExhaustion, (mem_123, arr_123))"
proof -
  have h: "array_ok mem_123 arr_123" by code_simp
  have c: "m_capacity arr_123 = 3" "avail mem_123 = 16" "brk mem_123 = 4"
    by (simp_all add: arr_123_def mem_123_def)
  have u: "arr_123\<lparr>m_data := 4, m_capacity := 7\<rparr> = \<lparr>m_size = 3, m_data = 4, m_capacity = 7\<rparr>"
    by (simp add: arr_123_def)
  have s: "slots mem_123 arr_123 = [Some 1, Some 2, Some 3]" by code_simp
  from reserve_frame [OF h, of 2] c have "reserve 2 (mem_123, arr_123) = Inr (mem_123, arr_123)"
    by simp
  moreover from reserve_frame [OF h, of 7] c u s
  have "\<exists>m'. reserve 7 (mem_123, arr_123) = Inr (m', \<lparr>m_size = 3, m_data = 4, m_capacity = 7\<rparr>) \<and>
         slots m' \<lparr>m_size = 3, m_data = 4, m_capacity = 7\<rparr> = [Some 1, Some 2, Some 3]"
    by simp
  moreover from reserve_frame [OF h, of 700] c
  have "reserve 700 (mem_123, arr_123) = Inl (MemoryExhaustion, (mem_123, arr_123))"
    by simp
  ultimately show ?thesis using h by blast
qed

section \<open>Growth: push_back\<close>

lemma add32_id: "a + b < size_type_modulus \<Longrightarrow> add32 a b = a + b"
  by (simp add: add32_def)

lemma mul32_id: "a * b < size_type_modulus \<Longrightarrow> mul32 a b = a * b"
  by (simp add: mul32_def)

lemma sub32_id:
  assumes "b \<le> a" and "a < size_type_modulus"
  shows "sub32 a b = a - b"
proof -
  from assms have "b mod size_type_modulus = b" by simp
  moreover from assms have "a + size_type_modulus - b = (a - b) + size_type_modulus" by simp
  moreover from assms have "(a - b) mod size_type_modulus = a - b" by simp
  ultimately show ?thesis by (simp add: sub32_def)
qed

lemma slots_construct_at_end:
  "slots (poke (m_data a + m_size a) c m) (a\<lparr>m_size := m_size a + 1\<rparr>) = slots m a @ [Some c]"
  by (simp add: slots_def cells_poke)

text \<open>The zero-argument \<open>reserve()\<close>: afterwards there is room for one more element.\<close>

lemma reserve_grow_spec:
  assumes ok: "array_ok m a" and nowrap: "2 * m_capacity a < size_type_modulus"
    and fit0: "m_capacity a = 0 \<longrightarrow> minimumCapacity \<le> avail m"
    and fit1: "m_size a = m_capacity a \<longrightarrow> 2 * m_capacity a \<le> avail m"
  shows "\<exists>m1 a1. reserve_grow (m, a) = Inr (m1, a1) \<and> array_ok m1 a1 \<and>
           m_size a1 = m_size a \<and> m_size a1 < m_capacity a1 \<and> slots m1 a1 = slots m a \<and>
           m_capacity a1 =
             (if m_capacity a = 0 then minimumCapacity
              else if m_size a = m_capacity a then 2 * m_capacity a else m_capacity a) \<and>
           (m_size a < m_capacity a \<longrightarrow> m1 = m \<and> a1 = a) \<and>
           (\<not> m_size a < m_capacity a \<longrightarrow> m_data a1 = brk m)"
proof -
  from ok have le: "m_size a \<le> m_capacity a" by (simp add: array_ok_def)
  consider (zero) "m_capacity a = 0" | (full) "m_capacity a \<noteq> 0" "m_size a = m_capacity a"
    | (room) "m_capacity a \<noteq> 0" "m_size a < m_capacity a"
    using le by linarith
  then show ?thesis
  proof cases
    case zero
    let ?n = minimumCapacity
    have big: "m_capacity a < ?n" using zero by (simp add: minimumCapacity_def)
    have fit: "?n \<le> avail m" using zero fit0 by simp
    have n: "?n < size_type_modulus" by (simp add: minimumCapacity_def size_type_modulus_def)
    from reserve_grows_slots [OF ok big fit] obtain m1 where
      run: "reserve ?n (m, a) = Inr (m1, a\<lparr>m_data := brk m, m_capacity := ?n\<rparr>)" and
      s: "slots m1 (a\<lparr>m_data := brk m, m_capacity := ?n\<rparr>) = slots m a"
      by blast
    from reserve_grows_ok [OF ok big fit n run]
    have "array_ok m1 (a\<lparr>m_data := brk m, m_capacity := ?n\<rparr>)" .
    moreover have "reserve_grow (m, a) = Inr (m1, a\<lparr>m_data := brk m, m_capacity := ?n\<rparr>)"
      using zero run by (simp add: reserve_grow_def)
    ultimately show ?thesis using s zero le big by auto
  next
    case full
    let ?n = "2 * m_capacity a"
    have big: "m_capacity a < ?n" using full by simp
    have fit: "?n \<le> avail m" using full fit1 by simp
    from reserve_grows_slots [OF ok big fit] obtain m1 where
      run: "reserve ?n (m, a) = Inr (m1, a\<lparr>m_data := brk m, m_capacity := ?n\<rparr>)" and
      s: "slots m1 (a\<lparr>m_data := brk m, m_capacity := ?n\<rparr>) = slots m a"
      by blast
    from reserve_grows_ok [OF ok big fit nowrap run]
    have "array_ok m1 (a\<lparr>m_data := brk m, m_capacity := ?n\<rparr>)" .
    moreover have "reserve_grow (m, a) = Inr (m1, a\<lparr>m_data := brk m, m_capacity := ?n\<rparr>)"
      using full run nowrap by (simp add: reserve_grow_def mul32_id)
    ultimately show ?thesis using s full big by auto
  next
    case room
    then have "reserve_grow (m, a) = Inr (m, a)" by (simp add: reserve_grow_def)
    with ok room show ?thesis by auto
  qed
qed

text \<open>
  What \<open>push_back\<close> does for a value from outside the array, on a well-formed array whose
  doubled capacity fits \<^verbatim>\<open>unsigned int\<close> and with a provider that can supply the block the
  growth policy asks for: the capacity becomes \<open>minimumCapacity\<close> if it was 0, is doubled if
  the array was full and is unchanged otherwise; a changed capacity comes with a fresh block
  at \<open>brk\<close>; the length grows by one, the prior elements are unchanged and the value
  follows them; the result is well formed.
\<close>

lemma push_back_spec:
  assumes ok: "array_ok m a" and nowrap: "2 * m_capacity a < size_type_modulus"
    and fit0: "m_capacity a = 0 \<longrightarrow> minimumCapacity \<le> avail m"
    and fit1: "m_size a = m_capacity a \<longrightarrow> 2 * m_capacity a \<le> avail m"
  shows "\<exists>m' a'. push_back (Outside c) (m, a) = Inr (m', a') \<and> array_ok m' a' \<and>
           m_size a' = m_size a + 1 \<and> slots m' a' = slots m a @ [Some c] \<and>
           m_capacity a' =
             (if m_capacity a = 0 then minimumCapacity
              else if m_size a = m_capacity a then 2 * m_capacity a else m_capacity a) \<and>
           m_data a' = (if m_size a < m_capacity a then m_data a else brk m)"
proof -
  from reserve_grow_spec [OF assms] obtain m1 a1 where
    g: "reserve_grow (m, a) = Inr (m1, a1)" and ok1: "array_ok m1 a1" and
    sz: "m_size a1 = m_size a" and room: "m_size a1 < m_capacity a1" and
    s: "slots m1 a1 = slots m a" and
    cap: "m_capacity a1 =
             (if m_capacity a = 0 then minimumCapacity
              else if m_size a = m_capacity a then 2 * m_capacity a else m_capacity a)" and
    dat: "m_size a < m_capacity a \<longrightarrow> m1 = m \<and> a1 = a"
         "\<not> m_size a < m_capacity a \<longrightarrow> m_data a1 = brk m"
    by blast
  let ?m2 = "poke (m_data a1 + m_size a1) c m1"
  let ?a2 = "a1\<lparr>m_size := m_size a1 + 1\<rparr>"
  from ok1 room have small: "m_size a1 + 1 < size_type_modulus" by (simp add: array_ok_def)
  have run: "push_back (Outside c) (m, a) = Inr (?m2, ?a2)"
    using g small by (simp add: push_back_def alloc_construct_def add32_id)
  have s2: "slots ?m2 ?a2 = slots m a @ [Some c]"
    using slots_construct_at_end [of a1 c m1] s by simp
  have "view_ok ?m2 ?a2"
    using ok1 s s2 by (simp add: view_ok_def array_ok_def)
  with ok1 room have ok2: "array_ok ?m2 ?a2"
    by (simp add: array_ok_def brk_poke)
  from run ok2 s2 sz cap dat show ?thesis by auto
qed

text \<open>
  Beyond that range the doubling wraps around: with \<open>2 ^ 31\<close> elements in a full array,
  \<^verbatim>\<open>2*capacity_\<close> is 0 in \<^verbatim>\<open>unsigned int\<close>, \<open>reserve()\<close> leaves the array as it is, and
  \<open>push_back\<close> constructs the element one slot past the block: the capacity is not doubled
  and the length exceeds it.
\<close>

lemma reserve_grow_wraps:
  "mul32 2 (2 ^ 31) = 0 \<and>
   reserve_grow (m, \<lparr>m_size = 2 ^ 31, m_data = 1, m_capacity = 2 ^ 31\<rparr>) =
     Inr (m, \<lparr>m_size = 2 ^ 31, m_data = 1, m_capacity = 2 ^ 31\<rparr>)"
  by (simp add: reserve_grow_def reserve_def mul32_def size_type_modulus_def)

lemma push_back_wraps:
  "push_back (Outside c) (m, \<lparr>m_size = 2 ^ 31, m_data = 1, m_capacity = 2 ^ 31\<rparr>) =
     Inr (poke (1 + 2 ^ 31) c m, \<lparr>m_size = 2 ^ 31 + 1, m_data = 1, m_capacity = 2 ^ 31\<rparr>)"
  by (simp add: push_back_def reserve_grow_def reserve_def mul32_def add32_def
      size_type_modulus_def alloc_construct_def)

text \<open>
  C9. The claim does not hold of the code when the pushed value is an element of the array
  itself and the array is full. \<open>push_back\<close> takes its argument by reference; \<open>reserve()\<close>
  moves the elements to the doubled block and destroys and releases the old one, and only
  then is the new element constructed from the reference, which points into the released
  block. On the array \<open>[a, b]\<close> with capacity 2, \<^verbatim>\<open>push_back(front())\<close> reads a slot that
  holds no element, where the claim has length 3, capacity 4 and \<open>[a, b, a]\<close>. With a value
  from outside the array the same call gives length 3, capacity 4 and \<open>[a, b, c]\<close> in the
  new block at address 3.
\<close>

theorem push_back_own_element_reads_released_slot:
  "m_size arr_ab = m_capacity arr_ab \<and>
   slots mem_ab arr_ab = [Some CHR ''a'', Some CHR ''b''] \<and>
   state_after (push_back (Slot (v_begin arr_ab)) (mem_ab, arr_ab)) = Inl InvalidRead \<and>
   state_after (push_back (Outside CHR ''c'') (mem_ab, arr_ab)) =
     Inr ([Some CHR ''a'', Some CHR ''b'', Some CHR ''c''],
          \<lparr>m_size = 3, m_data = 3, m_capacity = 4\<rparr>)"
  by code_simp

section \<open>Construction\<close>






section \<open>Assignment\<close>



lemma assign_self:
  "assign True rhs (m, this) = Inr (m, this)"
  by (simp add: assign_def)



section \<open>Bulk insertion\<close>

text \<open>The element sequence after inserting \<open>n\<close> copies of \<open>x\<close> at index \<open>pos\<close>, slot by slot.\<close>

lemma slots_inserted:
  assumes sz: "m_size a' = m_size a + n" and pos: "pos \<le> m_size a"
    and c: "\<And>i. i < m_size a + n \<Longrightarrow>
              cells m' (m_data a' + i) =
                (if i < pos then cells m (m_data a + i)
                 else if i < pos + n then Some x else cells m (m_data a + (i - n)))"
  shows "slots m' a' = take pos (slots m a) @ replicate n (Some x) @ drop pos (slots m a)"
proof (rule nth_equalityI)
  show "length (slots m' a') =
        length (take pos (slots m a) @ replicate n (Some x) @ drop pos (slots m a))"
    using sz pos by (simp add: slots_def)
next
  fix i assume "i < length (slots m' a')"
  then have i: "i < m_size a + n" using sz by (simp add: slots_def)
  have l: "length (take pos (slots m a)) = pos" using pos by (simp add: slots_def)
  consider "i < pos" | "pos \<le> i" "i < pos + n" | "pos + n \<le> i" by linarith
  then show "slots m' a' ! i =
             (take pos (slots m a) @ replicate n (Some x) @ drop pos (slots m a)) ! i"
  proof cases
    case 1
    with i pos c [OF i] sz show ?thesis by (simp add: slots_def nth_append)
  next
    case 2
    then have "i - pos < n" by linarith
    with 2 i pos c [OF i] sz show ?thesis by (simp add: slots_def nth_append)
  next
    case 3
    then have "pos + (i - pos - n) = i - n" "\<not> i - pos < n" "\<not> i < pos" by simp_all
    with 3 i pos c [OF i] sz show ?thesis by (simp add: slots_def nth_append)
  qed
qed

text \<open>The standard algorithms on pointer ranges.\<close>

lemma uninitialized_copy_spec:
  assumes "first \<le> lst" and "\<forall>k<lst - first. cells m (first + k) \<noteq> None"
    and "d \<le> first \<or> lst \<le> d"
  shows "\<exists>m'. uninitialized_copy first lst d m = Inr m' \<and> brk m' = brk m \<and>
           avail m' = avail m \<and>
           (\<forall>a. cells m' a =
                (if d \<le> a \<and> a < d + (lst - first) then cells m (first + (a - d))
                 else cells m a))"
proof -
  from assms(1,3) have "d \<le> first \<or> first + (lst - first) \<le> d" by auto
  from copy_loop_spec [OF assms(2) this] show ?thesis
    by (simp add: uninitialized_copy_def)
qed

lemma std_copy_spec:
  assumes "first \<le> lst" and "\<forall>k<lst - first. cells m (first + k) \<noteq> None"
    and "d \<le> first \<or> lst \<le> d"
  shows "\<exists>m'. std_copy first lst d m = Inr m' \<and> brk m' = brk m \<and> avail m' = avail m \<and>
           (\<forall>a. cells m' a =
                (if d \<le> a \<and> a < d + (lst - first) then cells m (first + (a - d))
                 else cells m a))"
  using uninitialized_copy_spec [OF assms] by (simp add: uninitialized_copy_def std_copy_def)

lemma std_copy_backward_spec:
  assumes "first \<le> lst" and "lst - first \<le> d_last"
    and "\<forall>k<lst - first. cells m (first + k) \<noteq> None"
    and "lst \<le> d_last \<or> d_last \<le> first"
  shows "\<exists>m'. std_copy_backward first lst d_last m = Inr m' \<and> brk m' = brk m \<and>
           avail m' = avail m \<and>
           (\<forall>a. cells m' a =
                (if d_last - (lst - first) \<le> a \<and> a < d_last
                 then cells m (first + (a - (d_last - (lst - first)))) else cells m a))"
proof -
  let ?n = "lst - first"
  let ?dst = "d_last - ?n"
  from assms(1,2,4) have ord: "first \<le> ?dst \<or> ?dst + ?n \<le> first" by auto
  from assms(1,2) have e: "first + ?n = lst" "?dst + ?n = d_last" by auto
  from copy_backward_loop_spec [OF assms(3) ord] e show ?thesis
    by (simp add: std_copy_backward_def)
qed

lemma uninitialized_fill_spec:
  "\<exists>m'. uninitialized_fill first lst (Outside x) m = Inr m' \<and> brk m' = brk m \<and>
        avail m' = avail m \<and>
        (\<forall>a. cells m' a = (if first \<le> a \<and> a < lst then Some x else cells m a))"
proof -
  from fill_loop_spec [of "lst - first" first x m] obtain m' where
    r: "fill_loop (lst - first) first (Outside x) m = Inr m'" "brk m' = brk m"
       "avail m' = avail m" and
    c: "\<forall>a. cells m' a = (if first \<le> a \<and> a < first + (lst - first) then Some x else cells m a)"
    by blast
  from c have "\<forall>a. cells m' a = (if first \<le> a \<and> a < lst then Some x else cells m a)"
    by auto
  with r show ?thesis by (simp add: uninitialized_fill_def)
qed

lemma std_fill_spec:
  "\<exists>m'. std_fill first lst (Outside x) m = Inr m' \<and> brk m' = brk m \<and> avail m' = avail m \<and>
        (\<forall>a. cells m' a = (if first \<le> a \<and> a < lst then Some x else cells m a))"
  using uninitialized_fill_spec [of first lst x m] by (simp add: uninitialized_fill_def std_fill_def)

text \<open>The three branches of \<open>insert_n\<close>, each run to its end.\<close>

lemma ptr_diff_id:
  assumes "pos < 2 ^ 31"
  shows "ptr_diff (d + pos) d = int pos"
proof -
  have "(int pos + 2 ^ 31) mod 2 ^ 32 = int pos + 2 ^ 31"
    using assms by (intro mod_pos_pos_trivial) simp_all
  then show ?thesis by (simp add: ptr_diff_def difference_type_def)
qed

lemma ptr_add_int: "ptr_add p (int k) = p + k"
  by (simp add: ptr_add_def)

lemma to_size_type_int:
  assumes "k < size_type_modulus"
  shows "to_size_type (int k) = k"
proof -
  have "int k mod 2 ^ 32 = int k"
    using assms by (intro mod_pos_pos_trivial) (simp_all add: size_type_modulus_def)
  then show ?thesis by (simp add: to_size_type_def)
qed

text \<open>
  An index from \<open>2 ^ 31\<close> on does not fit \<open>difference_type\<close>: the stored offset is negative.
\<close>

lemma ptr_diff_wraps: "ptr_diff (d + 2 ^ 31) d = - (2 ^ 31)"
  by (simp add: ptr_diff_def difference_type_def)

lemma insert_n_run_new_buffer:
  assumes "ptr_diff p (v_begin a) = int pos"
    and "m_capacity a \<le> add32 (m_size a) n"
    and "reserve_raw (add32 (m_size a) n) m = Inr (new_data, m1)"
    and "uninitialized_copy (v_begin a) p new_data m1 = Inr m2"
    and "uninitialized_fill (new_data + pos) (new_data + pos + n) v m2 = Inr m3"
    and "uninitialized_copy p (v_end a) (new_data + pos + n) m3 = Inr m4"
  shows "insert_n p n v (m, a) =
           Inr ((deallocate (m_data a) (m_size a) m4,
                 a\<lparr>m_size := add32 (m_size a) n, m_data := new_data,
                    m_capacity := add32 (m_size a) n\<rparr>),
                new_data + pos)"
  using assms by (simp add: insert_n_def Let_def v_begin_def ptr_add_int)

lemma insert_n_run_new_buffer_fail:
  assumes "m_capacity a \<le> add32 (m_size a) n"
    and "reserve_raw (add32 (m_size a) n) m = Inl f"
  shows "insert_n p n v (m, a) = Inl (lift_fault a f)"
  using assms by (simp add: insert_n_def Let_def)

lemma insert_n_run_tail:
  assumes "ptr_diff p (v_begin a) = int pos" and "pos < size_type_modulus"
    and "\<not> m_capacity a \<le> add32 (m_size a) n"
    and "m_size a \<le> add32 pos n"
    and "uninitialized_copy p (v_end a) (v_end a + sub32 (add32 pos n) (m_size a)) m = Inr m1"
    and "uninitialized_fill (v_end a) (v_end a + sub32 (add32 pos n) (m_size a)) v m1 = Inr m2"
    and "std_fill p (v_end a) v m2 = Inr m3"
  shows "insert_n p n v (m, a) =
           Inr ((m3, a\<lparr>m_size := add32 (m_size a) n\<rparr>), v_begin a + pos)"
  using assms by (simp add: insert_n_def Let_def v_begin_def ptr_add_int to_size_type_int)

lemma insert_n_run_inside:
  assumes "ptr_diff p (v_begin a) = int pos" and "pos < size_type_modulus"
    and "\<not> m_capacity a \<le> add32 (m_size a) n"
    and "\<not> m_size a \<le> add32 pos n"
    and "uninitialized_copy (v_end a - n) (v_end a) (v_end a) m = Inr m1"
    and "std_copy_backward p (p + sub32 (m_size a) (add32 pos n)) (v_end a) m1 = Inr m2"
    and "std_fill p (p + n) v m2 = Inr m3"
  shows "insert_n p n v (m, a) =
           Inr ((m3, a\<lparr>m_size := add32 (m_size a) n\<rparr>), v_begin a + pos)"
  using assms by (simp add: insert_n_def Let_def v_begin_def ptr_add_int to_size_type_int)

text \<open>
  Insertion in place when the inserted range reaches or passes the old end
  (\<open>pos + n \<ge> size\<close>).
\<close>

lemma insert_n_tail:
  assumes ok: "array_ok m a" and pos: "pos \<le> m_size a" and small: "pos < 2 ^ 31"
    and nw: "m_size a + n < size_type_modulus"
    and room: "m_size a + n < m_capacity a" and tail: "m_size a \<le> pos + n"
  shows "\<exists>m'. insert_n (m_data a + pos) n (Outside x) (m, a) =
                Inr ((m', a\<lparr>m_size := m_size a + n\<rparr>), m_data a + pos) \<and>
              brk m' = brk m \<and> avail m' = avail m \<and>
              (\<forall>i<m_size a + n. cells m' (m_data a + i) =
                 (if i < pos then cells m (m_data a + i)
                  else if i < pos + n then Some x else cells m (m_data a + (i - n))))"
proof -
  let ?d = "m_data a" and ?s = "m_size a"
  let ?p = "?d + pos" and ?e = "?d + ?s"
  let ?diff = "pos + n - ?s"
  have b: "v_begin a = ?d" "v_end a = ?e" by (simp_all add: v_begin_def v_end_def)
  have a1: "add32 ?s n = ?s + n" using nw by (simp add: add32_id)
  have pd: "ptr_diff ?p (v_begin a) = int pos"
    using ptr_diff_id [OF small] by (simp add: v_begin_def)
  have ps: "pos < size_type_modulus" using small by (simp add: size_type_modulus_def)
  have a2: "add32 pos n = pos + n" using nw pos by (simp add: add32_id)
  have a3: "sub32 (pos + n) ?s = ?diff" using tail nw pos by (simp add: sub32_id)
  have l1: "\<forall>k<?e - ?p. cells m (?p + k) \<noteq> None"
  proof (intro allI impI)
    fix k assume "k < ?e - ?p"
    then have "pos + k < ?s" by simp
    with array_ok_live [OF ok] have "cells m (?d + (pos + k)) \<noteq> None" by blast
    then show "cells m (?p + k) \<noteq> None" by (simp add: add.assoc)
  qed
  have o1: "?p \<le> ?e" "?e + ?diff \<le> ?p \<or> ?e \<le> ?e + ?diff" using pos by simp_all
  from uninitialized_copy_spec [OF o1(1) l1 o1(2)] obtain m1 where
    r1: "uninitialized_copy ?p ?e (?e + ?diff) m = Inr m1" and
    f1: "brk m1 = brk m" "avail m1 = avail m" and
    c1: "\<forall>y. cells m1 y =
            (if ?e + ?diff \<le> y \<and> y < ?e + ?diff + (?e - ?p) then cells m (?p + (y - (?e + ?diff)))
             else cells m y)"
    by blast
  from uninitialized_fill_spec [of ?e "?e + ?diff" x m1] obtain m2 where
    r2: "uninitialized_fill ?e (?e + ?diff) (Outside x) m1 = Inr m2" and
    f2: "brk m2 = brk m1" "avail m2 = avail m1" and
    c2: "\<forall>y. cells m2 y = (if ?e \<le> y \<and> y < ?e + ?diff then Some x else cells m1 y)"
    by blast
  from std_fill_spec [of ?p ?e x m2] obtain m3 where
    r3: "std_fill ?p ?e (Outside x) m2 = Inr m3" and
    f3: "brk m3 = brk m2" "avail m3 = avail m2" and
    c3: "\<forall>y. cells m3 y = (if ?p \<le> y \<and> y < ?e then Some x else cells m2 y)"
    by blast
  have run: "insert_n ?p n (Outside x) (m, a) = Inr ((m3, a\<lparr>m_size := ?s + n\<rparr>), ?p)"
    using insert_n_run_tail [OF pd ps, of n m m1 "Outside x" m2 m3] room tail r1 r2 r3
    by (simp add: b a1 a2 a3)
  have "cells m3 (?d + i) =
          (if i < pos then cells m (?d + i)
           else if i < pos + n then Some x else cells m (?d + (i - n)))"
    if i: "i < ?s + n" for i
  proof -
    consider "i < pos" | "pos \<le> i" "i < ?s" | "?s \<le> i" "i < pos + n" | "pos + n \<le> i"
      by linarith
    then show ?thesis
    proof cases
      case 1
      with pos c3 c2 c1 show ?thesis by auto
    next
      case 2
      with tail c3 show ?thesis by auto
    next
      case 3
      with pos c3 c2 show ?thesis by auto
    next
      case 4
      with tail pos i have e: "?p + (?d + i - (?e + ?diff)) = ?d + (i - n)" by auto
      from 4 tail pos i c3 c2 have "cells m3 (?d + i) = cells m1 (?d + i)" by auto
      also from 4 tail pos i c1 have "\<dots> = cells m (?p + (?d + i - (?e + ?diff)))" by auto
      finally show ?thesis using 4 tail pos e by auto
    qed
  qed
  with run f1 f2 f3 show ?thesis by auto
qed

text \<open>Insertion in place strictly inside (\<open>pos + n < size\<close>).\<close>

lemma insert_n_inside:
  assumes ok: "array_ok m a" and pos: "pos \<le> m_size a" and small: "pos < 2 ^ 31"
    and nw: "m_size a + n < size_type_modulus"
    and room: "m_size a + n < m_capacity a" and inside: "pos + n < m_size a"
  shows "\<exists>m'. insert_n (m_data a + pos) n (Outside x) (m, a) =
                Inr ((m', a\<lparr>m_size := m_size a + n\<rparr>), m_data a + pos) \<and>
              brk m' = brk m \<and> avail m' = avail m \<and>
              (\<forall>i<m_size a + n. cells m' (m_data a + i) =
                 (if i < pos then cells m (m_data a + i)
                  else if i < pos + n then Some x else cells m (m_data a + (i - n))))"
proof -
  let ?d = "m_data a" and ?s = "m_size a"
  let ?p = "?d + pos" and ?e = "?d + ?s"
  let ?diff = "?s - (pos + n)"
  have b: "v_begin a = ?d" "v_end a = ?e" by (simp_all add: v_begin_def v_end_def)
  have a1: "add32 ?s n = ?s + n" using nw by (simp add: add32_id)
  have pd: "ptr_diff ?p (v_begin a) = int pos"
    using ptr_diff_id [OF small] by (simp add: v_begin_def)
  have ps: "pos < size_type_modulus" using small by (simp add: size_type_modulus_def)
  have a2: "add32 pos n = pos + n" using nw pos by (simp add: add32_id)
  have a3: "sub32 ?s (pos + n) = ?diff" using inside nw by (simp add: sub32_id)
  have live: "\<And>j. j < ?s \<Longrightarrow> cells m (?d + j) \<noteq> None"
    using array_ok_live [OF ok] by blast
  have l1: "\<forall>k<?e - (?e - n). cells m (?e - n + k) \<noteq> None"
  proof (intro allI impI)
    fix k assume "k < ?e - (?e - n)"
    with inside have "?s - n + k < ?s" "?e - n + k = ?d + (?s - n + k)" by auto
    with live show "cells m (?e - n + k) \<noteq> None" by metis
  qed
  have o1: "?e - n \<le> ?e" "?e \<le> ?e - n \<or> ?e \<le> ?e" by simp_all
  from uninitialized_copy_spec [OF o1(1) l1 o1(2)] obtain m1 where
    r1: "uninitialized_copy (?e - n) ?e ?e m = Inr m1" and
    f1: "brk m1 = brk m" "avail m1 = avail m" and
    c1: "\<forall>y. cells m1 y =
            (if ?e \<le> y \<and> y < ?e + (?e - (?e - n)) then cells m (?e - n + (y - ?e))
             else cells m y)"
    by blast
  have l2: "\<forall>k<?p + ?diff - ?p. cells m1 (?p + k) \<noteq> None"
  proof (intro allI impI)
    fix k assume "k < ?p + ?diff - ?p"
    with inside have k: "pos + k < ?s" by auto
    then have "cells m1 (?p + k) = cells m (?d + (pos + k))" using c1 by (auto simp: add.assoc)
    with live [OF k] show "cells m1 (?p + k) \<noteq> None" by simp
  qed
  have o2: "?p \<le> ?p + ?diff" "?p + ?diff - ?p \<le> ?e" "?p + ?diff \<le> ?e \<or> ?e \<le> ?p"
    using inside by auto
  from std_copy_backward_spec [OF o2(1) o2(2) l2 o2(3)] obtain m2 where
    r2: "std_copy_backward ?p (?p + ?diff) ?e m1 = Inr m2" and
    f2: "brk m2 = brk m1" "avail m2 = avail m1" and
    c2: "\<forall>y. cells m2 y =
            (if ?e - (?p + ?diff - ?p) \<le> y \<and> y < ?e
             then cells m1 (?p + (y - (?e - (?p + ?diff - ?p)))) else cells m1 y)"
    by blast
  from std_fill_spec [of ?p "?p + n" x m2] obtain m3 where
    r3: "std_fill ?p (?p + n) (Outside x) m2 = Inr m3" and
    f3: "brk m3 = brk m2" "avail m3 = avail m2" and
    c3: "\<forall>y. cells m3 y = (if ?p \<le> y \<and> y < ?p + n then Some x else cells m2 y)"
    by blast
  have run: "insert_n ?p n (Outside x) (m, a) = Inr ((m3, a\<lparr>m_size := ?s + n\<rparr>), ?p)"
    using insert_n_run_inside [OF pd ps, of n m m1 m2 "Outside x" m3] room inside r1 r2 r3
    by (simp add: b a1 a2 a3)
  have "cells m3 (?d + i) =
          (if i < pos then cells m (?d + i)
           else if i < pos + n then Some x else cells m (?d + (i - n)))"
    if i: "i < ?s + n" for i
  proof -
    consider "i < pos" | "pos \<le> i" "i < pos + n" | "pos + n \<le> i" "i < ?s" | "?s \<le> i"
      by linarith
    then show ?thesis
    proof cases
      case 1
      with inside c3 c2 c1 show ?thesis by auto
    next
      case 2
      with c3 show ?thesis by auto
    next
      case 3
      with inside have e: "?e - (?p + ?diff - ?p) = ?p + n"
        "?p + (?d + i - (?p + n)) = ?d + (i - n)" by auto
      from 3 c3 have "cells m3 (?d + i) = cells m2 (?d + i)" by auto
      also from 3 inside c2 e have "\<dots> = cells m1 (?d + (i - n))" by auto
      also from 3 inside c1 have "\<dots> = cells m (?d + (i - n))" by auto
      finally show ?thesis using 3 by auto
    next
      case 4
      with inside i have e: "?e - n + (?d + i - ?e) = ?d + (i - n)" by auto
      from 4 inside c3 c2 have "cells m3 (?d + i) = cells m1 (?d + i)" by auto
      also from 4 i inside c1 e have "\<dots> = cells m (?d + (i - n))" by auto
      finally show ?thesis using 4 inside by auto
    qed
  qed
  with run f1 f2 f3 show ?thesis by auto
qed

text \<open>Insertion into a new buffer (\<open>size + n \<ge> capacity\<close>).\<close>

lemma insert_n_new_buffer:
  assumes ok: "array_ok m a" and pos: "pos \<le> m_size a" and small: "pos < 2 ^ 31"
    and nw: "m_size a + n < size_type_modulus"
    and full: "m_capacity a \<le> m_size a + n" and nz: "0 < m_size a + n"
    and fit: "m_size a + n \<le> avail m"
  shows "\<exists>m'. insert_n (m_data a + pos) n (Outside x) (m, a) =
                Inr ((m', \<lparr>m_size = m_size a + n, m_data = brk m,
                           m_capacity = m_size a + n\<rparr>), brk m + pos) \<and>
              brk m' = brk m + (m_size a + n) \<and> avail m' = avail m - (m_size a + n) \<and>
              (\<forall>i<m_size a + n. cells m' (brk m + i) =
                 (if i < pos then cells m (m_data a + i)
                  else if i < pos + n then Some x else cells m (m_data a + (i - n))))"
proof -
  let ?d = "m_data a" and ?s = "m_size a" and ?nd = "brk m"
  let ?p = "?d + pos" and ?e = "?d + ?s"
  let ?m0 = "m\<lparr>brk := brk m + (?s + n), avail := avail m - (?s + n)\<rparr>"
  have b: "v_begin a = ?d" "v_end a = ?e" by (simp_all add: v_begin_def v_end_def)
  have a1: "add32 ?s n = ?s + n" using nw by (simp add: add32_id)
  have pd: "ptr_diff ?p (v_begin a) = int pos"
    using ptr_diff_id [OF small] by (simp add: v_begin_def)
  have ps: "pos < size_type_modulus" using small by (simp add: size_type_modulus_def)
  have live: "\<And>j. j < ?s \<Longrightarrow> cells m (?d + j) \<noteq> None"
    using array_ok_live [OF ok] by blast
  have below: "?s = 0 \<or> ?e \<le> ?nd" using ok by (auto simp: array_ok_def)
  have r0: "reserve_raw (?s + n) m = Inr (?nd, ?m0)"
    using nz fit by (simp add: reserve_raw_def allocate_ok)
  have l1: "\<forall>k<?p - ?d. cells ?m0 (?d + k) \<noteq> None"
    using live pos by simp
  have o1: "?d \<le> ?p" "?nd \<le> ?d \<or> ?p \<le> ?nd" using pos below by auto
  from uninitialized_copy_spec [OF o1(1) l1 o1(2)] obtain m2 where
    r1: "uninitialized_copy ?d ?p ?nd ?m0 = Inr m2" and
    f1: "brk m2 = brk ?m0" "avail m2 = avail ?m0" and
    c1: "\<forall>y. cells m2 y =
            (if ?nd \<le> y \<and> y < ?nd + (?p - ?d) then cells ?m0 (?d + (y - ?nd)) else cells ?m0 y)"
    by blast
  from uninitialized_fill_spec [of "?nd + pos" "?nd + pos + n" x m2] obtain m3 where
    r2: "uninitialized_fill (?nd + pos) (?nd + pos + n) (Outside x) m2 = Inr m3" and
    f2: "brk m3 = brk m2" "avail m3 = avail m2" and
    c2: "\<forall>y. cells m3 y = (if ?nd + pos \<le> y \<and> y < ?nd + pos + n then Some x else cells m2 y)"
    by blast
  have l3: "\<forall>k<?e - ?p. cells m3 (?p + k) \<noteq> None"
  proof (intro allI impI)
    fix k assume "k < ?e - ?p"
    then have k: "pos + k < ?s" by simp
    with below have "?p + k < ?nd" by auto
    then have "cells m3 (?p + k) = cells m (?d + (pos + k))" using c2 c1 by (auto simp: add.assoc)
    with live [OF k] show "cells m3 (?p + k) \<noteq> None" by simp
  qed
  have o3: "?p \<le> ?e" "?nd + pos + n \<le> ?p \<or> ?e \<le> ?nd + pos + n" using pos below by auto
  from uninitialized_copy_spec [OF o3(1) l3 o3(2)] obtain m4 where
    r3: "uninitialized_copy ?p ?e (?nd + pos + n) m3 = Inr m4" and
    f3: "brk m4 = brk m3" "avail m4 = avail m3" and
    c3: "\<forall>y. cells m4 y =
            (if ?nd + pos + n \<le> y \<and> y < ?nd + pos + n + (?e - ?p)
             then cells m3 (?p + (y - (?nd + pos + n))) else cells m3 y)"
    by blast
  let ?m5 = "deallocate ?d ?s m4"
  have d: "brk ?m5 = brk m4 \<and> avail ?m5 = avail m4 \<and>
           (\<forall>y. cells ?m5 y = (if ?d \<noteq> 0 \<and> ?d \<le> y \<and> y < ?e then None else cells m4 y))"
    using destroy_n_spec [of ?d ?s m4] by (simp add: deallocate_def alloc_deallocate_def)
  have run: "insert_n ?p n (Outside x) (m, a) =
               Inr ((?m5, \<lparr>m_size = ?s + n, m_data = ?nd, m_capacity = ?s + n\<rparr>), ?nd + pos)"
    using insert_n_run_new_buffer [OF pd, of n m ?nd ?m0 m2 "Outside x" m3 m4] full r0 r1 r2 r3
    by (simp add: b a1)
  have "cells ?m5 (?nd + i) =
          (if i < pos then cells m (?d + i)
           else if i < pos + n then Some x else cells m (?d + (i - n)))"
    if i: "i < ?s + n" for i
  proof -
    from below have keep: "cells ?m5 (?nd + i) = cells m4 (?nd + i)" using d by auto
    consider "i < pos" | "pos \<le> i" "i < pos + n" | "pos + n \<le> i" by linarith
    then show ?thesis
    proof cases
      case 1
      with keep c3 c2 c1 show ?thesis by auto
    next
      case 2
      with keep c3 c2 show ?thesis by auto
    next
      case 3
      with i have e: "?p + (?nd + i - (?nd + pos + n)) = ?d + (i - n)" "i - n < ?s" by auto
      with below have lt: "?d + (i - n) < ?nd" by auto
      from 3 i pos keep c3 e have "cells ?m5 (?nd + i) = cells m3 (?d + (i - n))" by auto
      also from lt c2 c1 have "\<dots> = cells m (?d + (i - n))" by auto
      finally show ?thesis using 3 by auto
    qed
  qed
  with run d f1 f2 f3 show ?thesis by auto
qed

lemma insert_n_new_buffer_fail:
  assumes nw: "m_size a + n < size_type_modulus"
    and full: "m_capacity a \<le> m_size a + n" and fit: "avail m < m_size a + n"
  shows "insert_n p n v (m, a) = Inl (MemoryExhaustion, (m, a))"
proof -
  have a1: "add32 (m_size a) n = m_size a + n" using nw by (simp add: add32_id)
  from fit have "0 < m_size a + n" by linarith
  with fit have "reserve_raw (m_size a + n) m = Inl (MemoryExhaustion, m)"
    by (simp add: reserve_raw_def allocate_def)
  with insert_n_run_new_buffer_fail [of a n m "(MemoryExhaustion, m)" p v] full a1
  show ?thesis by (simp add: lift_fault_def)
qed

text \<open>
  C4, as stated, fails when \<open>length + count\<close> equals the capacity: the array \<open>[1, 2, 3]\<close>
  with capacity 5 and two new elements has \<open>newLength = 5\<close>, at most the capacity, and yet
  the elements move to a new buffer (the data pointer changes from 1 to 6).
\<close>

theorem insert_n_at_capacity_reallocates:
  "add32 (m_size arr_123_room) 2 = m_capacity arr_123_room \<and> m_data arr_123_room = 1 \<and>
   array_after (insert_n 2 2 (Outside 9) (mem_123_room, arr_123_room)) =
     Inr \<lparr>m_size = 5, m_data = 6, m_capacity = 5\<rparr>"
  by code_simp

text \<open>
  C4, amended. For a well-formed array, a position \<open>pos \<le> length\<close> that fits
  \<open>difference_type\<close> (\<open>pos < 2 ^ 31\<close>) and a count \<open>n\<close> with \<open>length + n\<close> in the range of
  \<^verbatim>\<open>unsigned int\<close>: when \<open>newLength = length + n\<close> is strictly
  less than the capacity, the insertion is done in the existing buffer, without asking the
  provider; data pointer and capacity are unchanged. When \<open>newLength\<close> reaches or exceeds
  the capacity, a block of exactly \<open>newLength\<close> slots is taken from the provider, the
  capacity becomes \<open>newLength\<close> and the data pointer is the new block; when the provider
  cannot supply it, \<open>MemoryExhaustion\<close> is raised and nothing has changed. In both
  successful cases the array is well formed and holds the old elements with \<open>n\<close> copies of
  the value at \<open>pos\<close>, and the returned iterator points at the first of them.
\<close>

theorem insert_n_allocation:
  assumes ok: "array_ok m a" and pos: "pos \<le> m_size a" and small: "pos < 2 ^ 31"
    and nw: "m_size a + n < size_type_modulus"
  shows "(m_size a + n < m_capacity a \<longrightarrow>
            (\<exists>m'. insert_n (v_begin a + pos) n (Outside x) (m, a) =
                    Inr ((m', a\<lparr>m_size := m_size a + n\<rparr>), v_begin a + pos) \<and>
                  brk m' = brk m \<and> avail m' = avail m \<and>
                  array_ok m' (a\<lparr>m_size := m_size a + n\<rparr>) \<and>
                  slots m' (a\<lparr>m_size := m_size a + n\<rparr>) =
                    take pos (slots m a) @ replicate n (Some x) @ drop pos (slots m a))) \<and>
         (m_capacity a \<le> m_size a + n \<and> 0 < m_size a + n \<and> m_size a + n \<le> avail m \<longrightarrow>
            (\<exists>m'. insert_n (v_begin a + pos) n (Outside x) (m, a) =
                    Inr ((m', \<lparr>m_size = m_size a + n, m_data = brk m,
                               m_capacity = m_size a + n\<rparr>), brk m + pos) \<and>
                  brk m' = brk m + (m_size a + n) \<and>
                  avail m' = avail m - (m_size a + n) \<and>
                  array_ok m' \<lparr>m_size = m_size a + n, m_data = brk m,
                               m_capacity = m_size a + n\<rparr> \<and>
                  slots m' \<lparr>m_size = m_size a + n, m_data = brk m,
                            m_capacity = m_size a + n\<rparr> =
                    take pos (slots m a) @ replicate n (Some x) @ drop pos (slots m a))) \<and>
         (m_capacity a \<le> m_size a + n \<and> avail m < m_size a + n \<longrightarrow>
            insert_n (v_begin a + pos) n (Outside x) (m, a) = Inl (MemoryExhaustion, (m, a)))"
proof -
  from ok have "None \<notin> set (slots m a)" by (simp add: array_ok_def view_ok_def)
  then have live: "None \<notin> set (take pos (slots m a) @ replicate n (Some x) @ drop pos (slots m a))"
    by (auto dest: in_set_takeD in_set_dropD)
  let ?C = "\<lambda>m' d i. cells m' (d + i) =
                 (if i < pos then cells m (m_data a + i)
                  else if i < pos + n then Some x else cells m (m_data a + (i - n)))"
  have inplace: "\<exists>m'. insert_n (v_begin a + pos) n (Outside x) (m, a) =
                    Inr ((m', a\<lparr>m_size := m_size a + n\<rparr>), v_begin a + pos) \<and>
                  brk m' = brk m \<and> avail m' = avail m \<and>
                  array_ok m' (a\<lparr>m_size := m_size a + n\<rparr>) \<and>
                  slots m' (a\<lparr>m_size := m_size a + n\<rparr>) =
                    take pos (slots m a) @ replicate n (Some x) @ drop pos (slots m a)"
    if room: "m_size a + n < m_capacity a"
  proof -
    have "\<exists>m'. insert_n (m_data a + pos) n (Outside x) (m, a) =
                Inr ((m', a\<lparr>m_size := m_size a + n\<rparr>), m_data a + pos) \<and>
              brk m' = brk m \<and> avail m' = avail m \<and>
              (\<forall>i<m_size a + n. ?C m' (m_data a) i)"
    proof (cases "m_size a \<le> pos + n")
      case True
      from insert_n_tail [OF ok pos small nw room True] show ?thesis .
    next
      case False
      then have "pos + n < m_size a" by simp
      from insert_n_inside [OF ok pos small nw room this] show ?thesis .
    qed
    then obtain m' where
      run: "insert_n (m_data a + pos) n (Outside x) (m, a) =
              Inr ((m', a\<lparr>m_size := m_size a + n\<rparr>), m_data a + pos)" and
      f: "brk m' = brk m" "avail m' = avail m" and
      c: "\<forall>i<m_size a + n. ?C m' (m_data a) i"
      by blast
    have sl: "slots m' (a\<lparr>m_size := m_size a + n\<rparr>) =
            take pos (slots m a) @ replicate n (Some x) @ drop pos (slots m a)"
      by (rule slots_inserted [OF _ pos]) (simp_all add: c)
    with live have "view_ok m' (a\<lparr>m_size := m_size a + n\<rparr>)" by (simp add: view_ok_def)
    with ok room f have "array_ok m' (a\<lparr>m_size := m_size a + n\<rparr>)"
      by (simp add: array_ok_def)
    with run f sl show ?thesis by (simp add: v_begin_def)
  qed
  have fresh: "\<exists>m'. insert_n (v_begin a + pos) n (Outside x) (m, a) =
                    Inr ((m', \<lparr>m_size = m_size a + n, m_data = brk m,
                               m_capacity = m_size a + n\<rparr>), brk m + pos) \<and>
                  brk m' = brk m + (m_size a + n) \<and>
                  avail m' = avail m - (m_size a + n) \<and>
                  array_ok m' \<lparr>m_size = m_size a + n, m_data = brk m,
                               m_capacity = m_size a + n\<rparr> \<and>
                  slots m' \<lparr>m_size = m_size a + n, m_data = brk m,
                            m_capacity = m_size a + n\<rparr> =
                    take pos (slots m a) @ replicate n (Some x) @ drop pos (slots m a)"
    if full: "m_capacity a \<le> m_size a + n" and nz: "0 < m_size a + n"
      and fit: "m_size a + n \<le> avail m"
  proof -
    from insert_n_new_buffer [OF ok pos small nw full nz fit] obtain m' where
      run: "insert_n (m_data a + pos) n (Outside x) (m, a) =
              Inr ((m', \<lparr>m_size = m_size a + n, m_data = brk m,
                         m_capacity = m_size a + n\<rparr>), brk m + pos)" and
      f: "brk m' = brk m + (m_size a + n)" "avail m' = avail m - (m_size a + n)" and
      c: "\<forall>i<m_size a + n. ?C m' (brk m) i"
      by blast
    let ?a' = "\<lparr>m_size = m_size a + n, m_data = brk m, m_capacity = m_size a + n\<rparr>"
    have sl: "slots m' ?a' =
            take pos (slots m a) @ replicate n (Some x) @ drop pos (slots m a)"
      by (rule slots_inserted [OF _ pos]) (simp_all add: c)
    with live have "view_ok m' ?a'" by (simp add: view_ok_def)
    with ok nw f have "array_ok m' ?a'" by (simp add: array_ok_def)
    with run f sl show ?thesis by (simp add: v_begin_def)
  qed
  have fail: "insert_n (v_begin a + pos) n (Outside x) (m, a) = Inl (MemoryExhaustion, (m, a))"
    if "m_capacity a \<le> m_size a + n" "avail m < m_size a + n"
    using insert_n_new_buffer_fail [OF nw that] .
  show ?thesis by (simp add: inplace fresh fail)
qed

theorem insert_n_allocation_witness:
  "array_ok mem_123_room arr_123_room \<and>
   (\<exists>m'. insert_n 2 1 (Outside 9) (mem_123_room, arr_123_room) =
           Inr ((m', \<lparr>m_size = 4, m_data = 1, m_capacity = 5\<rparr>), 2) \<and>
         brk m' = 6 \<and>
         slots m' \<lparr>m_size = 4, m_data = 1, m_capacity = 5\<rparr> = [Some 1, Some 9, Some 2, Some 3]) \<and>
   (\<exists>m'. insert_n 2 2 (Outside 9) (mem_123_room, arr_123_room) =
           Inr ((m', \<lparr>m_size = 5, m_data = 6, m_capacity = 5\<rparr>), 7) \<and>
         brk m' = 11 \<and>
         slots m' \<lparr>m_size = 5, m_data = 6, m_capacity = 5\<rparr> =
           [Some 1, Some 9, Some 9, Some 2, Some 3]) \<and>
   insert_n 2 20 (Outside 9) (mem_123_room, arr_123_room) =
     Inl (MemoryExhaustion, (mem_123_room, arr_123_room))"
proof -
  have h: "array_ok mem_123_room arr_123_room" by code_simp
  have c: "m_size arr_123_room = 3" "m_capacity arr_123_room = 5" "v_begin arr_123_room = 1"
    "brk mem_123_room = 6" "avail mem_123_room = 16"
    by (simp_all add: arr_123_room_def mem_123_room_def v_begin_def)
  have u: "arr_123_room\<lparr>m_size := 4\<rparr> = \<lparr>m_size = 4, m_data = 1, m_capacity = 5\<rparr>"
    by (simp add: arr_123_room_def)
  have s: "slots mem_123_room arr_123_room = [Some 1, Some 2, Some 3]" by code_simp
  have p: "(1::nat) \<le> m_size arr_123_room" by (simp add: c)
  have q: "(1::nat) < 2 ^ 31" by simp
  have w1: "m_size arr_123_room + 1 < size_type_modulus" by (simp add: c size_type_modulus_def)
  have w2: "m_size arr_123_room + 2 < size_type_modulus" by (simp add: c size_type_modulus_def)
  have w3: "m_size arr_123_room + 20 < size_type_modulus" by (simp add: c size_type_modulus_def)
  from insert_n_allocation [OF h p q w1, of 9] c u s
  have "\<exists>m'. insert_n 2 1 (Outside 9) (mem_123_room, arr_123_room) =
           Inr ((m', \<lparr>m_size = 4, m_data = 1, m_capacity = 5\<rparr>), 2) \<and>
         brk m' = 6 \<and>
         slots m' \<lparr>m_size = 4, m_data = 1, m_capacity = 5\<rparr> = [Some 1, Some 9, Some 2, Some 3]"
    by (auto simp: numeral_2_eq_2)
  moreover from insert_n_allocation [OF h p q w2, of 9] c s
  have "\<exists>m'. insert_n 2 2 (Outside 9) (mem_123_room, arr_123_room) =
           Inr ((m', \<lparr>m_size = 5, m_data = 6, m_capacity = 5\<rparr>), 7) \<and>
         brk m' = 11 \<and>
         slots m' \<lparr>m_size = 5, m_data = 6, m_capacity = 5\<rparr> =
           [Some 1, Some 9, Some 9, Some 2, Some 3]"
    by (auto simp: numeral_2_eq_2)
  moreover from insert_n_allocation [OF h p q w3, of 9] c
  have "insert_n 2 20 (Outside 9) (mem_123_room, arr_123_room) =
     Inl (MemoryExhaustion, (mem_123_room, arr_123_room))"
    by (auto simp: numeral_2_eq_2)
  ultimately show ?thesis using h by blast
qed

section \<open>Single insertion and removal\<close>

lemma insert_1_run_end:
  assumes "ptr_diff p (v_begin a) = int pos"
    and "p = v_end a" and "push_back v (m, a) = Inr (m1, a1)"
  shows "insert_1 p v (m, a) = Inr ((m1, a1), v_begin a1 + pos)"
  using assms by (simp add: insert_1_def Let_def ptr_add_int)

lemma insert_1_run_inside:
  assumes "ptr_diff p (v_begin a) = int pos"
    and "p \<noteq> v_end a" and "push_back (back_av a) (m, a) = Inr (m1, a1)"
    and "std_copy_backward (v_begin a1 + pos) (v_end a1 - 2) (v_end a1 - 1) m1 = Inr m2"
  shows "insert_1 p (Outside x) (m, a) =
           Inr ((poke (v_begin a1 + pos) x m2, a1), v_begin a1 + pos)"
  using assms by (simp add: insert_1_def Let_def ptr_add_int)

text \<open>
  Inserting before an existing element when the array has room: \<open>push_back\<close> does not
  reallocate, so the reference to the last element stays valid.
\<close>

lemma insert_1_inside_room:
  assumes ok: "array_ok m a" and pos: "pos < m_size a" and fits: "pos < 2 ^ 31"
    and room: "m_size a < m_capacity a"
  shows "\<exists>m'. insert_1 (v_begin a + pos) (Outside x) (m, a) =
                Inr ((m', a\<lparr>m_size := m_size a + 1\<rparr>), v_begin a + pos) \<and>
              brk m' = brk m \<and> avail m' = avail m \<and>
              slots m' (a\<lparr>m_size := m_size a + 1\<rparr>) =
                take pos (slots m a) @ [Some x] @ drop pos (slots m a)"
proof -
  let ?d = "m_data a" and ?s = "m_size a"
  let ?p = "?d + pos"
  let ?a1 = "a\<lparr>m_size := ?s + 1\<rparr>"
  have b: "v_begin a = ?d" "v_end a = ?d + ?s" "v_begin ?a1 = ?d" "v_end ?a1 = ?d + ?s + 1"
    by (simp_all add: v_begin_def v_end_def)
  from ok room have small: "?s + 1 < size_type_modulus" "?s < size_type_modulus"
    by (simp_all add: array_ok_def)
  have live: "\<And>j. j < ?s \<Longrightarrow> cells m (?d + j) \<noteq> None"
    using array_ok_live [OF ok] by blast
  from pos have s1: "sub32 ?s 1 = ?s - 1" using small by (simp add: sub32_id)
  from pos live [of "?s - 1"] obtain l where l: "cells m (?d + (?s - 1)) = Some l" by auto
  let ?m1 = "poke (?d + ?s) l m"
  have g: "reserve_grow (m, a) = Inr (m, a)" using room by (simp add: reserve_grow_def)
  have pb: "push_back (back_av a) (m, a) = Inr (?m1, ?a1)"
    using g l s1 small by (simp add: push_back_def back_av_def alloc_construct_def add32_id)
  have c1: "\<And>y. cells ?m1 y = (if y = ?d + ?s then Some l else cells m y)"
    by (simp add: cells_poke)
  let ?lst = "?d + ?s + 1 - 2"
  have l2: "\<forall>k<?lst - ?p. cells ?m1 (?p + k) \<noteq> None"
  proof (intro allI impI)
    fix k assume "k < ?lst - ?p"
    then have k: "pos + k < ?s" by auto
    then have "cells ?m1 (?p + k) = cells m (?d + (pos + k))" by (simp add: c1 add.assoc)
    with live [OF k] show "cells ?m1 (?p + k) \<noteq> None" by simp
  qed
  have o2: "?p \<le> ?lst" "?lst - ?p \<le> ?d + ?s + 1 - 1"
    "?lst \<le> ?d + ?s + 1 - 1 \<or> ?d + ?s + 1 - 1 \<le> ?p"
    using pos by auto
  from std_copy_backward_spec [OF o2(1) o2(2) l2 o2(3)] obtain m2 where
    r2: "std_copy_backward ?p ?lst (?d + ?s + 1 - 1) ?m1 = Inr m2" and
    f2: "brk m2 = brk ?m1" "avail m2 = avail ?m1" and
    c2: "\<forall>y. cells m2 y =
            (if ?d + ?s + 1 - 1 - (?lst - ?p) \<le> y \<and> y < ?d + ?s + 1 - 1
             then cells ?m1 (?p + (y - (?d + ?s + 1 - 1 - (?lst - ?p)))) else cells ?m1 y)"
    by blast
  let ?m3 = "poke ?p x m2"
  have ne: "?p \<noteq> v_end a" using pos by (simp add: b)
  have pd: "ptr_diff ?p (v_begin a) = int pos"
    using ptr_diff_id [OF fits] by (simp add: v_begin_def)
  have run: "insert_1 ?p (Outside x) (m, a) = Inr ((?m3, ?a1), ?p)"
    using insert_1_run_inside [OF pd ne pb, of m2 x] r2 by (simp add: v_begin_def v_end_def)
  have cc: "cells ?m3 (?d + i) =
          (if i < pos then cells m (?d + i)
           else if i < pos + 1 then Some x else cells m (?d + (i - 1)))"
    if i: "i < ?s + 1" for i
  proof -
    have e: "?d + ?s + 1 - 1 - (?lst - ?p) = ?p + 1" using pos by auto
    consider "i < pos" | "i = pos" | "pos < i" "i < ?s" | "i = ?s" using i by linarith
    then show ?thesis
    proof cases
      case 1
      with pos c2 e show ?thesis by (auto simp: cells_poke c1)
    next
      case 2
      then show ?thesis by (simp add: cells_poke)
    next
      case 3
      then have e2: "?p + (?d + i - (?p + 1)) = ?d + (i - 1)" by auto
      from 3 have "cells ?m3 (?d + i) = cells m2 (?d + i)" by (simp add: cells_poke)
      also from 3 c2 e e2 have "\<dots> = cells ?m1 (?d + (i - 1))" by auto
      also from 3 have "\<dots> = cells m (?d + (i - 1))" by (auto simp: c1)
      finally show ?thesis using 3 by auto
    next
      case 4
      with pos have "cells ?m3 (?d + i) = cells m2 (?d + i)" by (simp add: cells_poke)
      also from 4 pos c2 e have "\<dots> = cells ?m1 (?d + i)" by auto
      also from 4 l have "\<dots> = cells m (?d + (i - 1))" by (simp add: c1)
      finally show ?thesis using 4 pos by auto
    qed
  qed
  have le: "pos \<le> ?s" using pos by simp
  have "slots ?m3 ?a1 = take pos (slots m a) @ replicate 1 (Some x) @ drop pos (slots m a)"
    by (rule slots_inserted [OF _ le]) (simp_all add: cc)
  with run f2 show ?thesis by (simp add: v_begin_def brk_poke avail_poke)
qed

text \<open>Inserting at the end is \<open>push_back\<close>.\<close>

lemma insert_1_at_end:
  assumes ok: "array_ok m a" and nowrap: "2 * m_capacity a < size_type_modulus"
    and fit0: "m_capacity a = 0 \<longrightarrow> minimumCapacity \<le> avail m"
    and fit1: "m_size a = m_capacity a \<longrightarrow> 2 * m_capacity a \<le> avail m"
  shows "\<exists>m' a'. insert_1 (v_begin a + m_size a) (Outside x) (m, a) =
                   Inr ((m', a'), v_begin a' + m_size a) \<and> array_ok m' a' \<and>
                 m_size a' = m_size a + 1 \<and>
                 slots m' a' = take (m_size a) (slots m a) @ [Some x] @ drop (m_size a) (slots m a)"
proof -
  from push_back_spec [OF assms, of x] obtain m' a' where
    pb: "push_back (Outside x) (m, a) = Inr (m', a')" and ok': "array_ok m' a'" and
    sz: "m_size a' = m_size a + 1" and s: "slots m' a' = slots m a @ [Some x]"
    by blast
  have e: "v_begin a + m_size a = v_end a" by (simp add: v_begin_def v_end_def)
  from ok nowrap have "m_size a < 2 ^ 31" by (simp add: array_ok_def size_type_modulus_def)
  from ptr_diff_id [OF this] have pd: "ptr_diff (v_begin a + m_size a) (v_begin a) = int (m_size a)" .
  from insert_1_run_end [OF pd e pb]
  have "insert_1 (v_begin a + m_size a) (Outside x) (m, a) = Inr ((m', a'), v_begin a' + m_size a)"
    by (simp add: v_begin_def)
  moreover have "length (slots m a) = m_size a" by (simp add: slots_def)
  ultimately show ?thesis using ok' sz s by auto
qed

text \<open>Erasing the element at index \<open>pos\<close> closes the gap and drops the last slot.\<close>

lemma erase_spec:
  assumes live: "view_ok m a" and pos: "pos < m_size a" and small: "m_size a < size_type_modulus"
  shows "\<exists>m'. erase (v_begin a + pos) (m, a) =
                Inr ((m', a\<lparr>m_size := m_size a - 1\<rparr>), v_begin a + pos) \<and>
              slots m' (a\<lparr>m_size := m_size a - 1\<rparr>) =
                take pos (slots m a) @ drop (Suc pos) (slots m a)"
proof -
  let ?d = "m_data a" and ?s = "m_size a"
  let ?p = "?d + pos" and ?e = "?d + ?s"
  have b: "v_begin a = ?d" "v_end a = ?e" by (simp_all add: v_begin_def v_end_def)
  have lv: "\<And>j. j < ?s \<Longrightarrow> cells m (?d + j) \<noteq> None"
    using live by (simp add: view_ok_iff)
  have l1: "\<forall>k<?e - (?p + 1). cells m (?p + 1 + k) \<noteq> None"
  proof (intro allI impI)
    fix k assume "k < ?e - (?p + 1)"
    then have k: "pos + 1 + k < ?s" by auto
    from lv [OF k] show "cells m (?p + 1 + k) \<noteq> None" by (simp add: add.assoc)
  qed
  have o1: "?p + 1 \<le> ?e" "?p \<le> ?p + 1 \<or> ?e \<le> ?p" using pos by auto
  from std_copy_spec [OF o1(1) l1 o1(2)] obtain m1 where
    r1: "std_copy (?p + 1) ?e ?p m = Inr m1" and
    c1: "\<forall>y. cells m1 y =
            (if ?p \<le> y \<and> y < ?p + (?e - (?p + 1)) then cells m (?p + 1 + (y - ?p))
             else cells m y)"
    by blast
  from pos small have s1: "sub32 ?s 1 = ?s - 1" by (simp add: sub32_id)
  let ?a' = "a\<lparr>m_size := ?s - 1\<rparr>"
  let ?m' = "alloc_destroy (?d + (?s - 1)) m1"
  have run: "erase ?p (m, a) = Inr ((?m', ?a'), ?p)"
    using r1 s1 by (simp add: erase_def b pop_back_def Let_def lift_fault_def)
  have "slots ?m' ?a' = take pos (slots m a) @ drop (Suc pos) (slots m a)"
  proof (rule nth_equalityI)
    show "length (slots ?m' ?a') = length (take pos (slots m a) @ drop (Suc pos) (slots m a))"
      using pos by (simp add: slots_def)
  next
    fix i assume "i < length (slots ?m' ?a')"
    then have i: "i < ?s - 1" by (simp add: slots_def)
    then have ii: "i < ?s" "i + 1 < ?s" by simp_all
    have lt: "length (take pos (slots m a)) = pos" using pos by (simp add: slots_def)
    from i have keep: "cells ?m' (?d + i) = cells m1 (?d + i)" by (auto simp: alloc_destroy_def)
    have lhs: "slots ?m' ?a' ! i = cells ?m' (?d + i)" using i by (simp add: slots_def)
    show "slots ?m' ?a' ! i = (take pos (slots m a) @ drop (Suc pos) (slots m a)) ! i"
    proof (cases "i < pos")
      case True
      with c1 have "cells m1 (?d + i) = cells m (?d + i)" by auto
      moreover from True ii pos
      have "(take pos (slots m a) @ drop (Suc pos) (slots m a)) ! i = cells m (?d + i)"
        by (simp add: slots_def nth_append)
      ultimately show ?thesis using lhs keep by simp
    next
      case False
      with i have e: "?p + 1 + (?d + i - ?p) = ?d + (i + 1)" "Suc pos + (i - pos) = i + 1"
        by auto
      from False i c1 e have "cells m1 (?d + i) = cells m (?d + (i + 1))" by auto
      moreover from False ii pos e
      have "(take pos (slots m a) @ drop (Suc pos) (slots m a)) ! i = cells m (?d + (i + 1))"
        by (simp add: slots_def nth_append)
      ultimately show ?thesis using lhs keep by simp
    qed
  qed
  with run show ?thesis by (simp add: b)
qed

text \<open>
  The round trip where the code supports it: at the end of the array, or before an
  element of an array that has room for one more.
\<close>

lemma insert_then_erase_restores:
  assumes ok: "array_ok m a" and pos: "pos \<le> m_size a"
    and safe: "pos = m_size a \<or> m_size a < m_capacity a"
    and nowrap: "2 * m_capacity a < size_type_modulus"
    and fit0: "m_capacity a = 0 \<longrightarrow> minimumCapacity \<le> avail m"
    and fit1: "m_size a = m_capacity a \<longrightarrow> 2 * m_capacity a \<le> avail m"
  shows "\<exists>m' a' p. insert_then_erase pos (Outside x) (m, a) = Inr ((m', a'), p) \<and>
           m_size a' = m_size a \<and> slots m' a' = slots m a"
proof -
  have "\<exists>m1 a1. insert_1 (v_begin a + pos) (Outside x) (m, a) =
                   Inr ((m1, a1), v_begin a1 + pos) \<and> array_ok m1 a1 \<and>
                 m_size a1 = m_size a + 1 \<and>
                 slots m1 a1 = take pos (slots m a) @ [Some x] @ drop pos (slots m a)"
  proof (cases "pos = m_size a")
    case True
    with insert_1_at_end [OF ok nowrap fit0 fit1, of x] show ?thesis by simp
  next
    case False
    with pos safe have lt: "pos < m_size a" and room: "m_size a < m_capacity a" by auto
    from room nowrap lt have fits: "pos < 2 ^ 31" by (simp add: size_type_modulus_def)
    let ?a1 = "a\<lparr>m_size := m_size a + 1\<rparr>"
    from insert_1_inside_room [OF ok lt fits room, of x] obtain m1 where
      run: "insert_1 (v_begin a + pos) (Outside x) (m, a) = Inr ((m1, ?a1), v_begin a + pos)" and
      f: "brk m1 = brk m" and
      s: "slots m1 ?a1 = take pos (slots m a) @ [Some x] @ drop pos (slots m a)"
      by blast
    from ok have "None \<notin> set (slots m a)" by (simp add: array_ok_def view_ok_def)
    then have "None \<notin> set (take pos (slots m a) @ [Some x] @ drop pos (slots m a))"
      by (auto dest: in_set_takeD in_set_dropD)
    with s have "view_ok m1 ?a1" by (simp add: view_ok_def)
    with ok room f have "array_ok m1 ?a1" by (simp add: array_ok_def)
    with run s show ?thesis by (auto simp: v_begin_def)
  qed
  then obtain m1 a1 where
    ins: "insert_1 (v_begin a + pos) (Outside x) (m, a) = Inr ((m1, a1), v_begin a1 + pos)" and
    ok1: "array_ok m1 a1" and sz: "m_size a1 = m_size a + 1" and
    s1: "slots m1 a1 = take pos (slots m a) @ [Some x] @ drop pos (slots m a)"
    by blast
  from ok1 have v1: "view_ok m1 a1" and small: "m_size a1 < size_type_modulus"
    by (simp_all add: array_ok_def)
  from pos sz have p1: "pos < m_size a1" by simp
  from erase_spec [OF v1 p1 small] obtain m' where
    er: "erase (v_begin a1 + pos) (m1, a1) =
           Inr ((m', a1\<lparr>m_size := m_size a1 - 1\<rparr>), v_begin a1 + pos)" and
    s2: "slots m' (a1\<lparr>m_size := m_size a1 - 1\<rparr>) =
           take pos (slots m1 a1) @ drop (Suc pos) (slots m1 a1)"
    by blast
  have len: "length (slots m a) = m_size a" by (simp add: slots_def)
  with pos have "take pos (slots m1 a1) @ drop (Suc pos) (slots m1 a1) = slots m a"
    by (simp add: s1)
  with s2 have "slots m' (a1\<lparr>m_size := m_size a1 - 1\<rparr>) = slots m a" by simp
  moreover have "insert_then_erase pos (Outside x) (m, a) =
                   Inr ((m', a1\<lparr>m_size := m_size a1 - 1\<rparr>), v_begin a1 + pos)"
    using ins er by (simp add: insert_then_erase_def)
  ultimately show ?thesis using sz by auto
qed

text \<open>Scenario 1 on an array with room: \<open>[1, 2, 3]\<close>, \<open>[1, 9, 2, 3]\<close>, \<open>[1, 2, 3]\<close>.\<close>

lemma insert_then_erase_scenario:
  "outcome (insert_1 2 (Outside 9) (mem_123_room, arr_123_room)) =
     Inr ([Some 1, Some 9, Some 2, Some 3], 2) \<and>
   outcome (insert_then_erase 1 (Outside 9) (mem_123_room, arr_123_room)) =
     Inr ([Some 1, Some 2, Some 3], 2)"
  by code_simp

text \<open>
  On the full array \<open>[1, 2, 3]\<close> the zero-argument \<open>reserve()\<close> moves the elements to the
  block at address 4, and the slot that \<^verbatim>\<open>this->back()\<close> referred to holds no element any
  more.
\<close>

lemma reserve_grow_releases_last_element:
  "(case reserve_grow (mem_123, arr_123) of
      Inl f \<Rightarrow> False
    | Inr (m1, a1) \<Rightarrow>
        a1 = \<lparr>m_size = 3, m_data = 4, m_capacity = 6\<rparr> \<and>
        slots m1 a1 = [Some 1, Some 2, Some 3] \<and>
        (back_av arr_123 :: int const_ref) = Slot 3 \<and> deref m1 (back_av arr_123) = None)"
  by code_simp

text \<open>
  C6. The claim does not hold of the code for a full array and a position before its end.
  \<open>insert\<close> calls \<^verbatim>\<open>push_back(this->back())\<close>, which passes a reference to the last
  element; \<open>reserve()\<close> then moves the elements to a new block and destroys and releases the
  old one, and only afterwards is the new element constructed from the reference, which now
  points into released storage. On \<open>[1, 2, 3]\<close> with capacity 3 and position 1 the insertion
  reads a slot that holds no element.
\<close>

theorem insert_full_array_reads_released_slot:
  "m_size arr_123 = m_capacity arr_123 \<and>
   slots mem_123 arr_123 = [Some 1, Some 2, Some 3] \<and>
   outcome (insert_1 2 (Outside 9) (mem_123, arr_123)) = Inl InvalidRead \<and>
   outcome (insert_then_erase 1 (Outside 9) (mem_123, arr_123)) = Inl InvalidRead"
  by code_simp

end
